theory Spec2Isabelle
  imports Complex_Main "HOL-Library.List_Lexorder"
begin

section \<open>JavaScript strings\<close>

definition substring :: "string \<Rightarrow> nat \<Rightarrow> nat \<Rightarrow> string" where
  "substring s a b =
     (let a' = min a (length s); b' = min b (length s);
          lo = min a' b'; hi = max a' b'
      in take (hi - lo) (drop lo s))"

fun indexOf :: "string \<Rightarrow> string \<Rightarrow> nat option" where
  "indexOf [] pat = (if pat = [] then Some 0 else None)"
| "indexOf (c # s) pat =
     (if take (length pat) (c # s) = pat then Some 0
      else map_option Suc (indexOf s pat))"

definition includes_str :: "string \<Rightarrow> string \<Rightarrow> bool" where
  "includes_str s pat = (indexOf s pat \<noteq> None)"

section \<open>The document tree\<close>

type_synonym path = "nat list"

datatype node = Text string | Elem string "(string \<times> string) list" "node list"

fun textContent :: "node \<Rightarrow> string" where
  "textContent (Text s) = s"
| "textContent (Elem t a cs) = concat (map textContent cs)"

fun nodeAt :: "node \<Rightarrow> path \<Rightarrow> node option" where
  "nodeAt n [] = Some n"
| "nodeAt (Text s) (i # p) = None"
| "nodeAt (Elem t a cs) (i # p) = (if i < length cs then nodeAt (cs ! i) p else None)"

fun nodeLength :: "node \<Rightarrow> nat" where
  "nodeLength (Text s) = length s"
| "nodeLength (Elem t a cs) = length cs"

fun isText :: "node \<Rightarrow> bool" where
  "isText (Text s) = True"
| "isText (Elem t a cs) = False"

fun textNodes :: "node \<Rightarrow> (path \<times> string) list"
  and textNodes_children :: "node list \<Rightarrow> nat \<Rightarrow> (path \<times> string) list" where
  "textNodes (Text s) = [([], s)]"
| "textNodes (Elem t a cs) = textNodes_children cs 0"
| "textNodes_children [] i = []"
| "textNodes_children (c # cs) i =
     map (\<lambda>(q, s). (i # q, s)) (textNodes c) @ textNodes_children cs (Suc i)"

fun traverse :: "nat \<Rightarrow> node \<Rightarrow> nat \<Rightarrow> (path \<times> nat) option \<times> nat"
  and traverse_children :: "nat \<Rightarrow> node list \<Rightarrow> nat \<Rightarrow> nat \<Rightarrow> (path \<times> nat) option \<times> nat" where
  "traverse target (Text s) cur =
     (if cur \<le> target \<and> target \<le> cur + length s then (Some ([], target - cur), cur)
      else (None, cur + length s))"
| "traverse target (Elem t a cs) cur = traverse_children target cs 0 cur"
| "traverse_children target [] i cur = (None, cur)"
| "traverse_children target (c # cs) i cur =
     (case traverse target c cur of
        (Some (q, off), cur') \<Rightarrow> (Some (i # q, off), cur')
      | (None, cur') \<Rightarrow> traverse_children target cs (Suc i) cur')"

definition findTextNodeAtOffset :: "node \<Rightarrow> nat \<Rightarrow> (path \<times> nat) option" where
  "findTextNodeAtOffset rootNode targetOffset = fst (traverse targetOffset rootNode 0)"

datatype ordering = Before | Equal | After

fun position :: "path \<Rightarrow> nat \<Rightarrow> path \<Rightarrow> nat \<Rightarrow> ordering" where
  "position [] k [] l = (if k < l then Before else if k = l then Equal else After)"
| "position [] k (j # q) l = (if j < k then After else Before)"
| "position (i # p) k [] l = (if i < l then Before else After)"
| "position (i # p) k (j # q) l =
     (if i < j then Before else if j < i then After else position p k q l)"

record dom_range =
  startContainer :: path
  startOffset :: nat
  endContainer :: path
  endOffset :: nat

definition valid_point :: "node \<Rightarrow> path \<Rightarrow> nat \<Rightarrow> bool" where
  "valid_point d p k = (case nodeAt d p of None \<Rightarrow> False | Some n \<Rightarrow> k \<le> nodeLength n)"

definition valid_range :: "node \<Rightarrow> dom_range \<Rightarrow> bool" where
  "valid_range d r =
     (valid_point d (startContainer r) (startOffset r) \<and>
      valid_point d (endContainer r) (endOffset r) \<and>
      position (startContainer r) (startOffset r) (endContainer r) (endOffset r) \<noteq> After)"

definition collapsed :: "dom_range \<Rightarrow> bool" where
  "collapsed r = (startContainer r = endContainer r \<and> startOffset r = endOffset r)"

fun commonPrefix :: "path \<Rightarrow> path \<Rightarrow> path" where
  "commonPrefix (i # p) (j # q) = (if i = j then i # commonPrefix p q else [])"
| "commonPrefix p q = []"

definition commonAncestorContainer :: "dom_range \<Rightarrow> path" where
  "commonAncestorContainer r = commonPrefix (startContainer r) (endContainer r)"

definition contained :: "dom_range \<Rightarrow> path \<Rightarrow> nat \<Rightarrow> bool" where
  "contained r q len =
     (position q 0 (startContainer r) (startOffset r) = After \<and>
      position q len (endContainer r) (endOffset r) = Before)"

definition textData :: "node \<Rightarrow> path \<Rightarrow> string option" where
  "textData d p = (case nodeAt d p of Some (Text s) \<Rightarrow> Some s | _ \<Rightarrow> None)"

definition range_toString :: "node \<Rightarrow> dom_range \<Rightarrow> string" where
  "range_toString d r =
     (case textData d (startContainer r) of
        Some s \<Rightarrow>
          if startContainer r = endContainer r then substring s (startOffset r) (endOffset r)
          else drop (startOffset r) s
            @ concat (map snd (filter (\<lambda>(q, t). contained r q (length t)) (textNodes d)))
            @ (case textData d (endContainer r) of Some e \<Rightarrow> take (endOffset r) e | None \<Rightarrow> [])
      | None \<Rightarrow>
          concat (map snd (filter (\<lambda>(q, t). contained r q (length t)) (textNodes d)))
            @ (case textData d (endContainer r) of Some e \<Rightarrow> take (endOffset r) e | None \<Rightarrow> []))"

definition intersectsNode :: "dom_range \<Rightarrow> path \<Rightarrow> bool" where
  "intersectsNode r q =
     (if q = [] then True
      else position (butlast q) (last q) (endContainer r) (endOffset r) = Before \<and>
           position (butlast q) (Suc (last q)) (startContainer r) (startOffset r) = After)"

definition treeWalkerTextNodes :: "node \<Rightarrow> path \<Rightarrow> (path \<times> string) list" where
  "treeWalkerTextNodes d rootNode =
     (case nodeAt d rootNode of
        Some (Elem t a cs) \<Rightarrow> map (\<lambda>(q, s). (rootNode @ q, s)) (textNodes_children cs 0)
      | _ \<Rightarrow> [])"

record fragment =
  node :: path
  fragStart :: nat
  fragEnd :: nat

fun getTextNodesInRange_loop :: "dom_range \<Rightarrow> (path \<times> string) list \<Rightarrow> fragment list" where
  "getTextNodesInRange_loop r [] = []"
| "getTextNodesInRange_loop r ((q, s) # rest) =
     (if \<not> intersectsNode r q then getTextNodesInRange_loop r rest
      else
        let so = (if q = startContainer r then startOffset r else 0);
            eo = (if q = endContainer r then endOffset r else length s)
        in if so < eo
           then \<lparr>node = q, fragStart = so, fragEnd = eo\<rparr> # getTextNodesInRange_loop r rest
           else getTextNodesInRange_loop r rest)"

definition getTextNodesInRange :: "node \<Rightarrow> dom_range \<Rightarrow> fragment list" where
  "getTextNodesInRange d r =
     getTextNodesInRange_loop r (treeWalkerTextNodes d (commonAncestorContainer r))"



section \<open>Text quote descriptors (locator.ts)\<close>

record textQuote =
  exact :: string
  prefix :: string
  suffix :: string

definition textContentAt :: "node \<Rightarrow> path \<Rightarrow> string" where
  "textContentAt d p = (case nodeAt d p of Some n \<Rightarrow> textContent n | None \<Rightarrow> [])"

definition createTextQuote :: "node \<Rightarrow> dom_range \<Rightarrow> textQuote" where
  "createTextQuote d r =
     (let ex = range_toString d r;
          startText = textContentAt d (startContainer r);
          so = startOffset r;
          prefixStart = nat (max 0 (int so - 32));
          pre = substring startText prefixStart so;
          endText = textContentAt d (endContainer r);
          eo = endOffset r;
          suf = substring endText eo (eo + 32)
      in \<lparr>exact = ex, prefix = pre, suffix = suf\<rparr>)"

section \<open>Rectangle hit testing (detector)\<close>

record selectionRect =
  startX :: real
  startY :: real
  endX :: real
  endY :: real



fun elementPaths :: "node \<Rightarrow> path list"
  and elementPaths_children :: "node list \<Rightarrow> nat \<Rightarrow> path list" where
  "elementPaths (Text s) = []"
| "elementPaths (Elem t a cs) = [] # elementPaths_children cs 0"
| "elementPaths_children [] i = []"
| "elementPaths_children (c # cs) i =
     map (\<lambda>q. i # q) (elementPaths c) @ elementPaths_children cs (Suc i)"

fun firstBodyIndex :: "node list \<Rightarrow> nat \<Rightarrow> nat option" where
  "firstBodyIndex [] i = None"
| "firstBodyIndex (Text s # cs) i = firstBodyIndex cs (Suc i)"
| "firstBodyIndex (Elem t a ks # cs) i =
     (if t = ''body'' \<or> t = ''frameset'' then Some i else firstBodyIndex cs (Suc i))"

fun bodyPath :: "node \<Rightarrow> path option" where
  "bodyPath (Text s) = None"
| "bodyPath (Elem t a cs) =
     (if t = ''html'' then map_option (\<lambda>i. [i]) (firstBodyIndex cs 0) else None)"












section \<open>Highlight markers (highlighter.ts)\<close>

text \<open>
  The document is the tree under its document element; a node is named by the path of child
  indices that leads to it. Every function that changes the document takes the tree and
  returns the changed tree together with its completion: what it returns, or the exception
  it throws. A script holds on to a node while the tree around it changes; in the model the
  path of a node that is still to be visited is relocated after each change.
\<close>

datatype dom_error =
  SyntaxError | HierarchyRequestError | IndexSizeError | InvalidStateError | TypeError

datatype 'a completion = Returns 'a | Throws dom_error

datatype annotationType = Agree | Question

fun typeName :: "annotationType \<Rightarrow> string" where
  "typeName Agree = ''agree''"
| "typeName Question = ''question''"

text \<open>
  What the tree model leaves to the platform: the completion of \<open>crypto.randomUUID()\<close>
  (the identifier it hands out, or the \<open>TypeError\<close> of the call where the function is
  missing, as it is outside a secure context),
  an exception of \<open>surroundContents\<close> in the loop over the fragments (by the index of
  the fragment; the DOM standard has none for a range inside one text node, so the
  \<open>catch\<close> of the loop is reached only this way), and the two whole-range operations of the
  legacy path on a range that is not confined to one text node.
\<close>

record platform =
  randomUUID :: "string completion"
  wrapFault :: "nat \<Rightarrow> dom_error option"
  surroundContentsOther :: "node \<Rightarrow> dom_range \<Rightarrow> node \<Rightarrow> node \<times> path completion"
  extractAndInsert :: "node \<Rightarrow> dom_range \<Rightarrow> node \<Rightarrow> node \<times> path completion"

definition createMark :: "annotationType \<Rightarrow> string \<Rightarrow> node list \<Rightarrow> node" where
  "createMark ty gid cs =
     Elem ''mark'' [(''class'', ''gogo-highlight-'' @ typeName ty), (''data-gogo-id'', gid)] cs"

subsection \<open>Attribute selectors built from an identifier\<close>

text \<open>
  The selectors are the template strings \<open>[data-gogo-id="${id}"]\<close> and
  \<open>mark[data-gogo-id="${id}"]\<close>. For an identifier without a double quote, a backslash, a
  line break or a NUL character the string is the attribute test for exactly that
  identifier. An identifier such as \<open>a"b\<close> ends the quoted part early and leaves a selector
  that does not parse: \<open>querySelector\<close> throws a \<open>SyntaxError\<close>. The model treats every
  identifier with one of these characters that way.
\<close>

definition unsafeChar :: "char \<Rightarrow> bool" where
  "unsafeChar c =
     (c = CHR 0x22 \<or> c = CHR 0x5C \<or> c = CHR 0x0A \<or> c = CHR 0x0C \<or> c = CHR 0x0D \<or> c = CHR 0x00)"

definition selectorSafe :: "string \<Rightarrow> bool" where
  "selectorSafe gid = list_all (\<lambda>c. \<not> unsafeChar c) gid"

definition hasGogoId :: "string \<Rightarrow> string \<Rightarrow> (string \<times> string) list \<Rightarrow> bool" where
  "hasGogoId gid t a = (map_of a ''data-gogo-id'' = Some gid)"

definition isMarkWithGogoId :: "string \<Rightarrow> string \<Rightarrow> (string \<times> string) list \<Rightarrow> bool" where
  "isMarkWithGogoId gid t a = (t = ''mark'' \<and> map_of a ''data-gogo-id'' = Some gid)"

fun matching :: "(string \<Rightarrow> (string \<times> string) list \<Rightarrow> bool) \<Rightarrow> node \<Rightarrow> path list"
  and matching_children ::
    "(string \<Rightarrow> (string \<times> string) list \<Rightarrow> bool) \<Rightarrow> node list \<Rightarrow> nat \<Rightarrow> path list" where
  "matching P (Text s) = []"
| "matching P (Elem t a cs) = (if P t a then [[]] else []) @ matching_children P cs 0"
| "matching_children P [] i = []"
| "matching_children P (c # cs) i =
     map (\<lambda>q. i # q) (matching P c) @ matching_children P cs (Suc i)"

definition firstOf :: "path list \<Rightarrow> path option" where
  "firstOf ps = (case ps of [] \<Rightarrow> None | p # rest \<Rightarrow> Some p)"

definition querySelectorAll_gogoId :: "node \<Rightarrow> string \<Rightarrow> path list completion" where
  "querySelectorAll_gogoId d gid =
     (if selectorSafe gid then Returns (matching (hasGogoId gid) d) else Throws SyntaxError)"

definition querySelector_gogoId :: "node \<Rightarrow> string \<Rightarrow> path option completion" where
  "querySelector_gogoId d gid =
     (if selectorSafe gid then Returns (firstOf (matching (hasGogoId gid) d)) else Throws SyntaxError)"

definition querySelector_markGogoId :: "node \<Rightarrow> string \<Rightarrow> path option completion" where
  "querySelector_markGogoId d gid =
     (if selectorSafe gid then Returns (firstOf (matching (isMarkWithGogoId gid) d))
      else Throws SyntaxError)"

subsection \<open>Wrapping a piece of one text node\<close>

text \<open>
  \<open>spliceAt d p ns\<close> puts the nodes \<open>ns\<close> in the place of the child at \<open>p\<close>. For a range
  from \<open>a\<close> to \<open>b\<close> inside the text node \<open>s\<close>, \<open>surroundContents\<close> leaves three siblings: the
  text node itself, cut down to the characters before \<open>a\<close>, the marker with the characters
  from \<open>a\<close> to \<open>b\<close> in a text node of its own, and a new text node with the rest. The first
  and the last of them can be empty. From a collapsed range nothing is extracted, and the
  marker has no child.
\<close>

fun spliceAt :: "node \<Rightarrow> path \<Rightarrow> node list \<Rightarrow> node" where
  "spliceAt (Elem t a cs) [i] ns =
     (if i < length cs then Elem t a (take i cs @ ns @ drop (Suc i) cs) else Elem t a cs)"
| "spliceAt (Elem t a cs) (i # j # p) ns =
     (if i < length cs then Elem t a (cs[i := spliceAt (cs ! i) (j # p) ns]) else Elem t a cs)"
| "spliceAt n p ns = n"

definition surroundText ::
  "node \<Rightarrow> path \<Rightarrow> string \<Rightarrow> nat \<Rightarrow> nat \<Rightarrow> annotationType \<Rightarrow> string \<Rightarrow> node" where
  "surroundText d p s a b ty gid =
     spliceAt d p
       [Text (take a s),
        createMark ty gid (if a = b then [] else [Text (drop a (take b s))]),
        Text (drop b s)]"

definition markPath :: "path \<Rightarrow> path" where
  "markPath p = butlast p @ [Suc (last p)]"

fun relocate :: "path \<Rightarrow> path \<Rightarrow> path" where
  "relocate [j] (i # q) = (if j < i then (i + 2) # q else i # q)"
| "relocate (j # k # p) (i # q) = (if i = j then i # relocate (k # p) q else i # q)"
| "relocate p q = q"

definition relocateFragment :: "path \<Rightarrow> fragment \<Rightarrow> fragment" where
  "relocateFragment p f = f\<lparr>node := relocate p (node f)\<rparr>"

text \<open>
  The body of the \<open>try\<close> in the loop of \<open>highlightRange\<close>: \<open>setStart\<close> and \<open>setEnd\<close> on a
  fresh range (an offset beyond the node is an \<open>IndexSizeError\<close>; an end before the start
  moves the start), the new marker, and \<open>surroundContents\<close>. A fragment names a text node
  that has a parent; the other branches are there to make the function total.
\<close>

definition wrapFragment ::
  "platform \<Rightarrow> node \<Rightarrow> annotationType \<Rightarrow> string \<Rightarrow> nat \<Rightarrow> fragment \<Rightarrow> node completion" where
  "wrapFragment pf d ty gid index f =
     (case nodeAt d (node f) of
        None \<Rightarrow> Throws TypeError
      | Some n \<Rightarrow>
          if nodeLength n < fragStart f then Throws IndexSizeError
          else if nodeLength n < fragEnd f then Throws IndexSizeError
          else
            (case wrapFault pf index of
               Some e \<Rightarrow> Throws e
             | None \<Rightarrow>
                 (case n of
                    Elem t a cs \<Rightarrow> Throws InvalidStateError
                  | Text s \<Rightarrow>
                      if node f = [] then Throws HierarchyRequestError
                      else
                        let so = (if fragEnd f < fragStart f then fragEnd f else fragStart f)
                        in Returns (surroundText d (node f) s so (fragEnd f) ty gid))))"

function wrapAll ::
  "platform \<Rightarrow> node \<Rightarrow> annotationType \<Rightarrow> string \<Rightarrow> nat \<Rightarrow> fragment list \<Rightarrow> node" where
  "wrapAll pf d ty gid index [] = d"
| "wrapAll pf d ty gid index (f # fs) =
     (case wrapFragment pf d ty gid index f of
        Returns d' \<Rightarrow> wrapAll pf d' ty gid (Suc index) (map (relocateFragment (node f)) fs)
      | Throws e \<Rightarrow> wrapAll pf d ty gid (Suc index) fs)"
  by pat_completeness auto
termination
  by (relation "measure (\<lambda>(pf, d, ty, gid, index, fs). length fs)") auto

subsection \<open>Creating a highlight\<close>

definition surroundContents ::
  "platform \<Rightarrow> node \<Rightarrow> dom_range \<Rightarrow> annotationType \<Rightarrow> string \<Rightarrow> node \<times> path completion" where
  "surroundContents pf d r ty gid =
     (case textData d (startContainer r) of
        Some s \<Rightarrow>
          if startContainer r = endContainer r \<and> startContainer r \<noteq> []
          then (surroundText d (startContainer r) s (startOffset r) (endOffset r) ty gid,
                Returns (markPath (startContainer r)))
          else surroundContentsOther pf d r (createMark ty gid [])
      | None \<Rightarrow> surroundContentsOther pf d r (createMark ty gid []))"

definition highlightRangeLegacy ::
  "platform \<Rightarrow> node \<Rightarrow> dom_range \<Rightarrow> annotationType \<Rightarrow> string \<Rightarrow> node \<times> path option completion" where
  "highlightRangeLegacy pf d r ty gid =
     (case surroundContents pf d r ty gid of
        (d', Returns m) \<Rightarrow> (d', Returns (Some m))
      | (d', Throws e) \<Rightarrow>
          (case extractAndInsert pf d' r (createMark ty gid []) of
             (d'', Returns m) \<Rightarrow> (d'', Returns (Some m))
           | (d'', Throws e') \<Rightarrow> (d'', Throws e')))"

definition highlightRange ::
  "platform \<Rightarrow> node \<Rightarrow> dom_range \<Rightarrow> annotationType \<Rightarrow> string option \<Rightarrow>
   node \<times> path option completion" where
  "highlightRange pf d r ty customId =
     (case (case customId of
              None \<Rightarrow> randomUUID pf
            | Some c \<Rightarrow> if c = [] then randomUUID pf else Returns c) of
        Throws e \<Rightarrow> (d, Throws e)
      | Returns gid \<Rightarrow>
          let textNodeRanges = getTextNodesInRange d r
          in if textNodeRanges = [] then highlightRangeLegacy pf d r ty gid
             else
               let d' = wrapAll pf d ty gid 0 textNodeRanges
               in (d', querySelector_gogoId d' gid))"

subsection \<open>Removing a highlight\<close>

text \<open>
  \<open>replaceWithText\<close> is \<open>element.parentNode.replaceChild(textNode, element)\<close> with the text
  content of the element in the new text node. The parent of the document element is the
  document, which takes no text node as its child: a \<open>HierarchyRequestError\<close>. An element
  of the list that lay inside one replaced before it is no longer in the document, and its
  own replacement happens outside the document.
\<close>

definition replaceWithText :: "node \<Rightarrow> path \<Rightarrow> node" where
  "replaceWithText d p =
     (case nodeAt d p of
        Some (Elem t a cs) \<Rightarrow> spliceAt d p [Text (textContent (Elem t a cs))]
      | _ \<Rightarrow> d)"

fun removeFragments :: "node \<Rightarrow> path list \<Rightarrow> node \<times> unit completion" where
  "removeFragments d [] = (d, Returns ())"
| "removeFragments d (p # ps) =
     (if p = [] then (d, Throws HierarchyRequestError)
      else removeFragments (replaceWithText d p) ps)"

fun normalizeChildren :: "node list \<Rightarrow> node list" where
  "normalizeChildren [] = []"
| "normalizeChildren (Elem t a ks # cs) = Elem t a (normalizeChildren ks) # normalizeChildren cs"
| "normalizeChildren (Text s # cs) =
     (case normalizeChildren cs of
        Text s' # rest \<Rightarrow> Text (s @ s') # rest
      | rest \<Rightarrow> if s = [] then rest else Text s # rest)"

fun normalize :: "node \<Rightarrow> node" where
  "normalize (Text s) = Text s"
| "normalize (Elem t a cs) = Elem t a (normalizeChildren cs)"

fun updateAt :: "node \<Rightarrow> path \<Rightarrow> (node \<Rightarrow> node) \<Rightarrow> node" where
  "updateAt n [] g = g n"
| "updateAt (Text s) (i # p) g = Text s"
| "updateAt (Elem t a cs) (i # p) g =
     (if i < length cs then Elem t a (cs[i := updateAt (cs ! i) p g]) else Elem t a cs)"

definition removeHighlight :: "node \<Rightarrow> string \<Rightarrow> node \<times> unit completion" where
  "removeHighlight d gid =
     (case querySelectorAll_gogoId d gid of
        Throws e \<Rightarrow> (d, Throws e)
      | Returns elements \<Rightarrow>
          if elements = [] then (d, Returns ())
          else
            (case removeFragments d elements of
               (d', Throws e) \<Rightarrow> (d', Throws e)
             | (d', Returns u) \<Rightarrow>
                 (case bodyPath d' of
                    None \<Rightarrow> (d', Throws TypeError)
                  | Some b \<Rightarrow> (updateAt d' b normalize, Returns ()))))"

subsection \<open>XPath descriptors (xpath.ts)\<close>

text \<open>
  An XPath of the form \<open>generateXPath\<close> writes, \<open>/tag[k]/tag[k]/...\<close>, is the list of its
  steps; the empty list is the empty string, which \<open>document.evaluate\<close> refuses. The
  generator counts an element among all element children of its parent, and stops at the
  element that has no parent element, so the document element gets no step. The evaluator
  starts at the document, whose only element child is the document element, and \<open>tag[k]\<close>
  is the \<open>k\<close>-th child with that tag.
\<close>

type_synonym xstep = "string \<times> nat"

fun elementSteps :: "node \<Rightarrow> path \<Rightarrow> xstep list" where
  "elementSteps n [] = []"
| "elementSteps (Text s) (i # p) = []"
| "elementSteps (Elem t a cs) (i # p) =
     (if i < length cs then
        (case cs ! i of
           Text s \<Rightarrow> []
         | Elem t' a' cs' \<Rightarrow>
             (t', Suc (length (filter (\<lambda>c. \<not> isText c) (take i cs)))) # elementSteps (cs ! i) p)
      else [])"

definition generateXPath :: "node \<Rightarrow> path \<Rightarrow> xstep list" where
  "generateXPath d p =
     (case nodeAt d p of
        None \<Rightarrow> []
      | Some (Text s) \<Rightarrow> elementSteps d (butlast p)
      | Some (Elem t a cs) \<Rightarrow> elementSteps d p)"

fun selectChild :: "node list \<Rightarrow> string \<Rightarrow> nat \<Rightarrow> nat \<Rightarrow> nat option" where
  "selectChild [] tag k i = None"
| "selectChild (Text s # cs) tag k i = selectChild cs tag k (Suc i)"
| "selectChild (Elem t a ks # cs) tag k i =
     (if t = tag then (if k = 1 then Some i else selectChild cs tag (k - 1) (Suc i))
      else selectChild cs tag k (Suc i))"

fun evaluateFrom :: "node \<Rightarrow> xstep list \<Rightarrow> path option" where
  "evaluateFrom n [] = Some []"
| "evaluateFrom (Text s) (st # sts) = None"
| "evaluateFrom (Elem t a cs) (st # sts) =
     (case selectChild cs (fst st) (snd st) 0 of
        None \<Rightarrow> None
      | Some i \<Rightarrow> map_option (\<lambda>q. i # q) (evaluateFrom (cs ! i) sts))"

definition evaluate :: "node \<Rightarrow> xstep list \<Rightarrow> path option completion" where
  "evaluate d xp =
     (case xp of
        [] \<Rightarrow> Throws SyntaxError
      | st # sts \<Rightarrow>
          (case selectChild [d] (fst st) (snd st) 0 of
             None \<Rightarrow> Returns None
           | Some i \<Rightarrow> Returns (evaluateFrom d sts)))"

record locationInfo =
  xpath :: "xstep list"
  textQuote :: textQuote

definition createLocationInfo :: "node \<Rightarrow> dom_range \<Rightarrow> locationInfo" where
  "createLocationInfo d r =
     \<lparr>xpath = generateXPath d (startContainer r), textQuote = createTextQuote d r\<rparr>"

subsection \<open>Restoring a highlight\<close>

text \<open>
  \<open>createRange\<close> is \<open>document.createRange()\<close> followed by \<open>setStart\<close> and \<open>setEnd\<close>. The
  restoring functions return, next to the document and their completion, the range they
  handed to \<open>highlightRange\<close>, if they got that far.
\<close>

definition createRange :: "node \<Rightarrow> path \<Rightarrow> nat \<Rightarrow> path \<Rightarrow> nat \<Rightarrow> dom_range completion" where
  "createRange d sc so ec eo =
     (if \<not> valid_point d sc so then Throws IndexSizeError
      else if \<not> valid_point d ec eo then Throws IndexSizeError
      else if position ec eo sc so = Before
      then Returns \<lparr>startContainer = ec, startOffset = eo, endContainer = ec, endOffset = eo\<rparr>
      else Returns \<lparr>startContainer = sc, startOffset = so, endContainer = ec, endOffset = eo\<rparr>)"

definition bodyNode :: "node \<Rightarrow> node option" where
  "bodyNode d = (case bodyPath d of None \<Rightarrow> None | Some b \<Rightarrow> nodeAt d b)"

definition findAndHighlightText ::
  "platform \<Rightarrow> node \<Rightarrow> string \<Rightarrow> string \<Rightarrow> annotationType \<Rightarrow> nat \<Rightarrow>
   node \<times> bool \<times> dom_range option" where
  "findAndHighlightText pf d txt gid ty startOff =
     (case bodyPath d of
        None \<Rightarrow> (d, False, None)
      | Some b \<Rightarrow>
          (case nodeAt d b of
             None \<Rightarrow> (d, False, None)
           | Some body \<Rightarrow>
               (case findTextNodeAtOffset body startOff of
                  None \<Rightarrow> (d, False, None)
                | Some startInfo \<Rightarrow>
                    (case findTextNodeAtOffset body (startOff + length txt) of
                       None \<Rightarrow> (d, False, None)
                     | Some endInfo \<Rightarrow>
                         (case createRange d (b @ fst startInfo) (snd startInfo)
                                 (b @ fst endInfo) (snd endInfo) of
                            Throws e \<Rightarrow> (d, False, None)
                          | Returns r \<Rightarrow>
                              (case highlightRange pf d r ty (Some gid) of
                                 (d', Throws e) \<Rightarrow> (d', False, Some r)
                               | (d', Returns None) \<Rightarrow> (d', False, Some r)
                               | (d', Returns (Some m)) \<Rightarrow> (d', True, Some r)))))))"

definition restoreByTextQuote ::
  "platform \<Rightarrow> node \<Rightarrow> string \<Rightarrow> textQuote \<Rightarrow> annotationType \<Rightarrow>
   node \<times> bool completion \<times> dom_range option" where
  "restoreByTextQuote pf d gid tq ty =
     (case bodyNode d of
        None \<Rightarrow> (d, Throws TypeError, None)
      | Some body \<Rightarrow>
          let bodyText = textContent body;
              searchPattern = prefix tq @ exact tq @ suffix tq
          in (case indexOf bodyText searchPattern of
                None \<Rightarrow>
                  (case indexOf bodyText (exact tq) of
                     None \<Rightarrow> (d, Returns False, None)
                   | Some exactIndex \<Rightarrow>
                       (case findAndHighlightText pf d (exact tq) gid ty exactIndex of
                          (d', b, g) \<Rightarrow> (d', Returns b, g)))
              | Some patternIndex \<Rightarrow>
                  (case findAndHighlightText pf d (exact tq) gid ty
                          (patternIndex + length (prefix tq)) of
                     (d', b, g) \<Rightarrow> (d', Returns b, g))))"

definition restoreHighlight ::
  "platform \<Rightarrow> node \<Rightarrow> string \<Rightarrow> xstep list \<Rightarrow> textQuote \<Rightarrow> annotationType \<Rightarrow>
   node \<times> bool completion \<times> dom_range option" where
  "restoreHighlight pf d gid xp tq ty =
     (case querySelector_markGogoId d gid of
        Throws e \<Rightarrow> (d, Throws e, None)
      | Returns (Some existingMark) \<Rightarrow> (d, Returns True, None)
      | Returns None \<Rightarrow>
          (case evaluate d xp of
             Throws e \<Rightarrow> (d, Returns False, None)
           | Returns None \<Rightarrow>
               (case restoreByTextQuote pf d gid tq ty of
                  (d', Throws e, g) \<Rightarrow> (d', Returns False, g)
                | (d', Returns b, g) \<Rightarrow> (d', Returns b, g))
           | Returns (Some np) \<Rightarrow>
               (case nodeAt d np of
                  None \<Rightarrow> (d, Returns False, None)
                | Some n \<Rightarrow>
                    (case indexOf (textContent n) (exact tq) of
                       None \<Rightarrow>
                         (case restoreByTextQuote pf d gid tq ty of
                            (d', Throws e, g) \<Rightarrow> (d', Returns False, g)
                          | (d', Returns b, g) \<Rightarrow> (d', Returns b, g))
                     | Some index \<Rightarrow>
                         (case findTextNodeAtOffset n index of
                            None \<Rightarrow> (d, Returns False, None)
                          | Some startInfo \<Rightarrow>
                              (case findTextNodeAtOffset n (index + length (exact tq)) of
                                 None \<Rightarrow> (d, Returns False, None)
                               | Some endInfo \<Rightarrow>
                                   (case createRange d (np @ fst startInfo) (snd startInfo)
                                           (np @ fst endInfo) (snd endInfo) of
                                      Throws e \<Rightarrow> (d, Returns False, None)
                                    | Returns r \<Rightarrow>
                                        (case highlightRange pf d r ty (Some gid) of
                                           (d', Throws e) \<Rightarrow> (d', Returns False, Some r)
                                         | (d', Returns None) \<Rightarrow> (d', Returns False, Some r)
                                         | (d', Returns (Some m)) \<Rightarrow>
                                             (d', Returns True, Some r)))))))))"

section \<open>Notions used to state the properties\<close>

fun findIn :: "nat \<Rightarrow> nat \<Rightarrow> (path \<times> string) list \<Rightarrow> (path \<times> nat) option" where
  "findIn target cur [] = None"
| "findIn target cur ((p, s) # ts) =
     (if cur \<le> target \<and> target \<le> cur + length s then Some (p, target - cur)
      else findIn target (cur + length s) ts)"

definition textLen :: "(path \<times> string) list \<Rightarrow> nat" where
  "textLen ts = length (concat (map snd ts))"


definition doc_bold :: node where
  "doc_bold = Elem ''p'' [] [Text ''ab'', Elem ''b'' [] [Text ''cd''], Text ''ef'']"

definition doc_empty_text :: node where
  "doc_empty_text = Elem ''p'' [] [Text ''ab'', Text [], Text ''cd'']"






definition normMinX :: "selectionRect \<Rightarrow> real" where "normMinX r = min (startX r) (endX r)"
definition normMaxX :: "selectionRect \<Rightarrow> real" where "normMaxX r = max (startX r) (endX r)"
definition normMinY :: "selectionRect \<Rightarrow> real" where "normMinY r = min (startY r) (endY r)"
definition normMaxY :: "selectionRect \<Rightarrow> real" where "normMaxY r = max (startY r) (endY r)"











text \<open>Notions for ranges: prefixes of paths, the characters of a text node before a
  boundary point, and the clipped fragment of a text node.\<close>

fun isPrefix :: "path \<Rightarrow> path \<Rightarrow> bool" where
  "isPrefix [] q = True"
| "isPrefix (i # p) [] = False"
| "isPrefix (i # p) (j # q) = (i = j \<and> isPrefix p q)"

definition charsBefore :: "path \<Rightarrow> nat \<Rightarrow> path \<times> string \<Rightarrow> nat" where
  "charsBefore p k x =
     (if fst x = p then min k (length (snd x))
      else if fst x < p @ [k] then length (snd x) else 0)"

definition cut :: "dom_range \<Rightarrow> path \<times> string \<Rightarrow> string" where
  "cut r x =
     drop (charsBefore (startContainer r) (startOffset r) x)
       (take (charsBefore (endContainer r) (endOffset r) x) (snd x))"

definition containedNode :: "dom_range \<Rightarrow> path \<times> string \<Rightarrow> bool" where
  "containedNode r x = contained r (fst x) (length (snd x))"

definition clipFragment :: "dom_range \<Rightarrow> path \<times> string \<Rightarrow> fragment" where
  "clipFragment r x =
     \<lparr>node = fst x,
      fragStart = (if fst x = startContainer r then startOffset r else 0),
      fragEnd = (if fst x = endContainer r then endOffset r else length (snd x))\<rparr>"

definition nonEmpty :: "fragment \<Rightarrow> bool" where
  "nonEmpty f = (fragStart f < fragEnd f)"

definition fragText :: "node \<Rightarrow> fragment \<Rightarrow> string" where
  "fragText d f =
     (case textData d (node f) of
        Some s \<Rightarrow> substring s (fragStart f) (fragEnd f)
      | None \<Rightarrow> [])"

definition singleTextNode :: "node \<Rightarrow> dom_range \<Rightarrow> bool" where
  "singleTextNode d r =
     (startContainer r = endContainer r \<and> textData d (startContainer r) \<noteq> None)"

definition clipText :: "dom_range \<Rightarrow> path \<times> string \<Rightarrow> string" where
  "clipText r x = substring (snd x) (fragStart (clipFragment r x)) (fragEnd (clipFragment r x))"


section \<open>Global text offsets of boundary points\<close>

definition shiftRange :: "path \<Rightarrow> dom_range \<Rightarrow> dom_range" where
  "shiftRange n r =
     \<lparr>startContainer = n @ startContainer r, startOffset = startOffset r,
      endContainer = n @ endContainer r, endOffset = endOffset r\<rparr>"

definition globalOffset :: "node \<Rightarrow> path \<Rightarrow> nat \<Rightarrow> nat" where
  "globalOffset d p k = sum_list (map (charsBefore p k) (textNodes d))"

fun stair :: "(path \<times> string \<Rightarrow> nat) \<Rightarrow> (path \<times> string) list \<Rightarrow> bool" where
  "stair f [] = True"
| "stair f (x # xs) = ((f x = length (snd x) \<or> list_all (\<lambda>y. f y = 0) xs) \<and> stair f xs)"


section \<open>Notions for the highlighter properties\<close>

text \<open>
  The identifier a call of \<open>highlightRange\<close> works with (\<open>customId || crypto.randomUUID()\<close>),
  the number of elements that carry
  an identifier, the fragments the loop can wrap (distinct text nodes that have a parent,
  with offsets inside the node), the number of fragments whose wrap does not throw, and
  sample platforms, ranges and identifiers.
\<close>

definition effectiveId :: "platform \<Rightarrow> string option \<Rightarrow> string completion" where
  "effectiveId pf customId =
     (case customId of
        None \<Rightarrow> randomUUID pf
      | Some c \<Rightarrow> if c = [] then randomUUID pf else Returns c)"

definition markers :: "node \<Rightarrow> string \<Rightarrow> nat" where
  "markers d gid = length (matching (hasGogoId gid) d)"

definition pf_demo :: platform where
  "pf_demo = \<lparr>randomUUID = Returns ''0b7e1c52-9f3a-4d6e-8a21-5c4d3e2f1a00'',
               wrapFault = (\<lambda>k. None),
               surroundContentsOther = (\<lambda>d r m. (d, Throws InvalidStateError)),
               extractAndInsert = (\<lambda>d r m. (spliceAt d [0] [m], Returns [0]))\<rparr>"

definition pf_skip :: platform where
  "pf_skip = pf_demo\<lparr>wrapFault := (\<lambda>k. if k = 1 then Some InvalidStateError else None)\<rparr>"

definition pf_faulty :: platform where
  "pf_faulty = pf_demo\<lparr>wrapFault := (\<lambda>k. Some InvalidStateError)\<rparr>"

definition pf_insecure :: platform where
  "pf_insecure = pf_demo\<lparr>randomUUID := Throws TypeError\<rparr>"

definition range_bold :: dom_range where
  "range_bold = \<lparr>startContainer = [0], startOffset = 1, endContainer = [2], endOffset = 1\<rparr>"

definition fragOk :: "node \<Rightarrow> fragment \<Rightarrow> bool" where
  "fragOk d f =
     (node f \<noteq> [] \<and> fragStart f \<le> fragEnd f \<and>
      (case nodeAt d (node f) of Some (Text s) \<Rightarrow> fragEnd f \<le> length s | _ \<Rightarrow> False))"

definition fragsOk :: "node \<Rightarrow> fragment list \<Rightarrow> bool" where
  "fragsOk d fs = (distinct (map node fs) \<and> list_all (fragOk d) fs)"

definition wrapped :: "platform \<Rightarrow> nat \<Rightarrow> nat \<Rightarrow> nat" where
  "wrapped pf k n = length (filter (\<lambda>i. wrapFault pf i = None) [k..<k + n])"

definition quoted_id :: string where
  "quoted_id = [CHR ''a'', CHR 0x22, CHR ''b'']"


text \<open>
  A range that lies inside one text node which has a parent (the legacy wrap of such a range
  is modelled exactly), sample documents with and without markers, and the test
  \<open>document.body\<close> applies to the children of the document element.
\<close>

definition textConfined :: "node \<Rightarrow> dom_range \<Rightarrow> bool" where
  "textConfined d r = (singleTextNode d r \<and> startContainer r \<noteq> [])"

definition doc_plain :: node where
  "doc_plain = Elem ''html'' [] [Elem ''head'' [] [],
     Elem ''body'' [] [Elem ''p'' [] [Text ''ab'', Elem ''b'' [] [Text ''cd''], Text ''ef'']]]"

definition range_plain :: dom_range where
  "range_plain =
     \<lparr>startContainer = [1, 0, 0], startOffset = 1, endContainer = [1, 0, 1, 0], endOffset = 2\<rparr>"

definition doc_marked :: node where
  "doc_marked = Elem ''html'' [] [Elem ''head'' [] [],
     Elem ''body'' []
       [Elem ''p'' []
          [Text ''a'', createMark Agree ''a1'' [Text ''b''], Text [],
           Elem ''b'' [] [Text [], createMark Agree ''a1'' [Text ''cd''], Text []],
           Text ''ef'']]]"

definition doc_html_marked :: node where
  "doc_html_marked =
     Elem ''html'' [(''data-gogo-id'', ''a1'')] [Elem ''body'' [] [Text ''x'']]"

definition doc_body_marked :: node where
  "doc_body_marked =
     Elem ''html'' [] [Elem ''body'' [(''data-gogo-id'', ''a1'')] [Text ''x'']]"

definition doc_svg_marked :: node where
  "doc_svg_marked = Elem ''svg'' [] [createMark Agree ''a1'' [Text ''x'']]"

definition isBodyTag :: "node \<Rightarrow> bool" where
  "isBodyTag n = (case n of Text s \<Rightarrow> False | Elem t a ks \<Rightarrow> t = ''body'' \<or> t = ''frameset'')"

text \<open>What \<open>normalize\<close> leaves behind: no empty text node and no two text nodes side by side.\<close>

fun normalizedChildren :: "node list \<Rightarrow> bool" where
  "normalizedChildren [] = True"
| "normalizedChildren (Elem t a ks # cs) = (normalizedChildren ks \<and> normalizedChildren cs)"
| "normalizedChildren (Text s # cs) =
     (s \<noteq> [] \<and> (case cs of Text s' # rest \<Rightarrow> False | _ \<Rightarrow> True) \<and> normalizedChildren cs)"

definition isNormalized :: "node \<Rightarrow> bool" where
  "isNormalized n = (case n of Text s \<Rightarrow> True | Elem t a cs \<Rightarrow> normalizedChildren cs)"

text \<open>
  The removal in the words of the specification: every element that carries the identifier
  and lies in no other such element gives way to a text node with its text content, and
  the rest of the tree stays. \<open>replaceNode\<close> is \<open>replaceWithText\<close> for a subtree, where the
  empty path names the subtree itself.
\<close>

fun replaceMarkers :: "(string \<Rightarrow> (string \<times> string) list \<Rightarrow> bool) \<Rightarrow> node \<Rightarrow> node" where
  "replaceMarkers P (Text s) = Text s"
| "replaceMarkers P (Elem t a cs) =
     (if P t a then Text (textContent (Elem t a cs)) else Elem t a (map (replaceMarkers P) cs))"

definition replaceNode :: "node \<Rightarrow> path \<Rightarrow> node" where
  "replaceNode n p =
     (if p = [] then (case n of Text s \<Rightarrow> n | Elem t a cs \<Rightarrow> Text (textContent n))
      else replaceWithText n p)"


text \<open>A sample text quote, and the completions that are a return.\<close>

definition tq_demo :: textQuote where
  "tq_demo = \<lparr>exact = ''bcd'', prefix = ''a'', suffix = []\<rparr>"

fun returns :: "'a completion \<Rightarrow> bool" where
  "returns (Returns x) = True"
| "returns (Throws e) = False"

definition unsafeId :: "string \<Rightarrow> bool" where
  "unsafeId gid = list_ex unsafeChar gid"

definition xp_demo :: "xstep list" where
  "xp_demo = [(''body'', 2), (''p'', 1)]"

text \<open>
  A mark element that carries the identifier, a document with a marker whose identifier has
  a double quote, a platform whose next identifier differs, and the number of mark
  elements of a document.
\<close>

definition hasMark :: "node \<Rightarrow> string \<Rightarrow> bool" where
  "hasMark d gid = (matching (isMarkWithGogoId gid) d \<noteq> [])"

definition doc_quoted :: node where
  "doc_quoted = Elem ''html'' [] [Elem ''head'' [] [],
     Elem ''body'' [] [Elem ''p'' [] [Text ''a'', createMark Agree quoted_id [Text ''bcd''],
                                      Text ''ef'']]]"

definition pf_next :: platform where
  "pf_next = pf_demo\<lparr>randomUUID := Returns ''7c1d9e40-2b6f-4a83-9d57-0e8f6a5b4c11''\<rparr>"

definition markCount :: "node \<Rightarrow> nat" where
  "markCount d = length (matching (\<lambda>t a. t = ''mark'') d)"

text \<open>
  A document whose body holds one image and no text, with a range around the image and a
  range in the title.
\<close>

definition doc_figure :: node where
  "doc_figure = Elem ''html'' [] [Elem ''head'' [] [Elem ''title'' [] [Text ''T'']],
     Elem ''body'' [] [Elem ''img'' [] []]]"

definition range_image :: dom_range where
  "range_image = \<lparr>startContainer = [1], startOffset = 0, endContainer = [1], endOffset = 1\<rparr>"

definition range_title :: dom_range where
  "range_title =
     \<lparr>startContainer = [0, 0, 0], startOffset = 0, endContainer = [0, 0, 0], endOffset = 1\<rparr>"

section \<open>Lemmas on text nodes in document order\<close>

lemma textLen_simps [simp]:
  "textLen [] = 0" "textLen ((p, s) # ts) = length s + textLen ts"
  "textLen (xs @ ys) = textLen xs + textLen ys"
  by (simp_all add: textLen_def)

lemma textLen_map_Cons [simp]:
  "textLen (map (\<lambda>(q, s). (f q, s)) ts) = textLen ts"
  by (induction ts) auto

lemma concat_textNodes:
  "concat (map snd (textNodes n)) = textContent n"
  "concat (map snd (textNodes_children cs i)) = concat (map textContent cs)"
  by (induction n and cs i rule: textNodes_textNodes_children.induct)
     (simp_all add: comp_def case_prod_unfold)

lemma textLen_textNodes:
  "textLen (textNodes n) = length (textContent n)"
  "textLen (textNodes_children cs i) = length (concat (map textContent cs))"
  by (simp_all add: textLen_def concat_textNodes)

lemma findIn_append:
  "findIn target cur (xs @ ys) =
     (case findIn target cur xs of Some r \<Rightarrow> Some r
      | None \<Rightarrow> findIn target (cur + textLen xs) ys)"
  by (induction xs arbitrary: cur) (auto simp: add.assoc split: option.splits)

lemma findIn_map:
  "findIn target cur (map (\<lambda>(q, s). (f q, s)) ts) =
     map_option (\<lambda>(q, off). (f q, off)) (findIn target cur ts)"
  by (induction ts arbitrary: cur) auto

lemma traverse_findIn:
  "fst (traverse target n cur) = findIn target cur (textNodes n) \<and>
   (findIn target cur (textNodes n) = None \<longrightarrow>
      snd (traverse target n cur) = cur + length (textContent n))"
  "fst (traverse_children target cs i cur) = findIn target cur (textNodes_children cs i) \<and>
   (findIn target cur (textNodes_children cs i) = None \<longrightarrow>
      snd (traverse_children target cs i cur) = cur + length (concat (map textContent cs)))"
proof (induction target n cur and target cs i cur rule: traverse_traverse_children.induct)
  case (1 target s cur)
  show ?case by simp
next
  case (2 target t a cs cur)
  then show ?case by simp
next
  case (3 target i cur)
  show ?case by simp
next
  case (4 target c cs i cur)
  obtain r cur' where t: "traverse target c cur = (r, cur')"
    by (cases "traverse target c cur")
  show ?case
  proof (cases r)
    case None
    with 4(1) t have f: "findIn target cur (textNodes c) = None"
      and c: "cur' = cur + length (textContent c)" by auto
    from 4(2)[OF t[symmetric] None] f c t None show ?thesis
      by (simp add: findIn_append findIn_map textLen_textNodes add.assoc)
  next
    case (Some x)
    with 4(1) t have f: "findIn target cur (textNodes c) = Some x" by auto
    with t Some show ?thesis by (cases x) (simp add: findIn_append findIn_map)
  qed
qed

lemma findTextNodeAtOffset_findIn:
  "findTextNodeAtOffset rootNode target = findIn target 0 (textNodes rootNode)"
  by (simp add: findTextNodeAtOffset_def traverse_findIn(1))

lemma findIn_bound:
  "findIn target cur ts = Some r \<Longrightarrow> target \<le> cur + textLen ts"
proof (induction ts arbitrary: cur)
  case Nil
  then show ?case by simp
next
  case (Cons x ts)
  obtain p s where x: "x = (p, s)" by (cases x)
  show ?case using Cons.prems Cons.IH[of "cur + length s"] x
    by (auto split: if_splits)
qed

lemma length_le_textLen_take:
  "k < length ts \<Longrightarrow> length (snd (ts ! k)) \<le> textLen (take (Suc k) ts)"
proof (induction ts arbitrary: k)
  case Nil
  then show ?case by simp
next
  case (Cons x ts)
  obtain p s where x: "x = (p, s)" by (cases x)
  show ?case
  proof (cases k)
    case 0
    with x show ?thesis by simp
  next
    case (Suc k')
    with Cons.prems have "length (snd (ts ! k')) \<le> textLen (take (Suc k') ts)"
      by (intro Cons.IH) simp
    with Suc x show ?thesis by simp
  qed
qed

lemma findIn_boundary:
  "k < length ts \<Longrightarrow> target = cur + textLen (take (Suc k) ts) \<Longrightarrow>
   k = 0 \<or> snd (ts ! k) \<noteq> [] \<Longrightarrow>
   findIn target cur ts = Some (fst (ts ! k), length (snd (ts ! k)))"
proof (induction ts arbitrary: cur k target)
  case Nil
  then show ?case by simp
next
  case (Cons x ts)
  obtain p s where x: "x = (p, s)" by (cases x)
  show ?case
  proof (cases k)
    case 0
    with Cons.prems x show ?thesis by simp
  next
    case (Suc k')
    with Cons.prems have k': "k' < length ts" and ne: "snd (ts ! k') \<noteq> []" by auto
    have "length (snd (ts ! k')) \<le> textLen (take (Suc k') ts)"
      using k' by (rule length_le_textLen_take)
    with ne have pos: "0 < textLen (take (Suc k') ts)" by (cases "snd (ts ! k')") auto
    have tgt: "target = (cur + length s) + textLen (take (Suc k') ts)"
      using Cons.prems(2) x Suc by simp
    have "findIn target (cur + length s) ts = Some (fst (ts ! k'), length (snd (ts ! k')))"
      by (rule Cons.IH[OF k' tgt]) (simp add: ne)
    with pos tgt x Suc show ?thesis by simp
  qed
qed

lemma findIn_lower:
  "findIn target cur ts = Some r \<Longrightarrow> cur \<le> target"
proof (induction ts arbitrary: cur)
  case Nil
  then show ?case by simp
next
  case (Cons x ts)
  obtain p s where x: "x = (p, s)" by (cases x)
  show ?case using Cons.prems Cons.IH[of "cur + length s"] x
    by (auto split: if_splits)
qed

lemma findIn_index:
  "findIn target cur ts = Some (q, off) \<Longrightarrow> k < length ts \<Longrightarrow>
   target \<le> cur + textLen (take (Suc k) ts) \<Longrightarrow>
   \<exists>j\<le>k. q = fst (ts ! j)"
proof (induction ts arbitrary: cur k)
  case Nil
  then show ?case by simp
next
  case (Cons x ts)
  obtain p s where x: "x = (p, s)" by (cases x)
  show ?case
  proof (cases "cur \<le> target \<and> target \<le> cur + length s")
    case True
    with Cons.prems x show ?thesis by auto
  next
    case False
    with Cons.prems x have f: "findIn target (cur + length s) ts = Some (q, off)" by simp
    from findIn_lower[OF f] have lo: "cur + length s \<le> target" .
    show ?thesis
    proof (cases k)
      case 0
      with Cons.prems x have "target \<le> cur + length s" by simp
      with lo False show ?thesis by simp
    next
      case (Suc k')
      with Cons.prems x have "\<exists>j\<le>k'. q = fst (ts ! j)"
        by (intro Cons.IH[OF f]) (auto simp: add.assoc)
      then obtain j where "j \<le> k'" "q = fst (ts ! j)" by blast
      with Suc show ?thesis by (intro exI[of _ "Suc j"]) simp
    qed
  qed
qed

lemma textNodes_children_heads:
  "(q, s) \<in> set (textNodes_children cs i) \<Longrightarrow> \<exists>j r. q = j # r \<and> i \<le> j"
proof (induction cs arbitrary: i)
  case Nil
  then show ?case by simp
next
  case (Cons c cs)
  from Cons.prems have "(q, s) \<in> set (map (\<lambda>(q, s). (i # q, s)) (textNodes c))
      \<or> (q, s) \<in> set (textNodes_children cs (Suc i))" by simp
  then show ?case
  proof
    assume "(q, s) \<in> set (map (\<lambda>(q, s). (i # q, s)) (textNodes c))"
    then show ?thesis by auto
  next
    assume "(q, s) \<in> set (textNodes_children cs (Suc i))"
    from Cons.IH[OF this] show ?thesis by (auto intro: Suc_leD)
  qed
qed

lemma sorted_textNodes:
  "sorted_wrt (<) (map fst (textNodes n))"
  "sorted_wrt (<) (map fst (textNodes_children cs i))"
proof (induction n and cs i rule: textNodes_textNodes_children.induct)
  case (1 s)
  show ?case by simp
next
  case (2 t a cs)
  then show ?case by simp
next
  case (3 i)
  show ?case by simp
next
  case (4 c cs i)
  have a: "sorted_wrt (<) (map fst (map (\<lambda>(q, s). (i # q, s)) (textNodes c)))"
    using 4(1) by (simp add: sorted_wrt_map case_prod_unfold)
  have b: "\<forall>x\<in>set (map (\<lambda>(q, s). (i # q, s)) (textNodes c)).
           \<forall>y\<in>set (textNodes_children cs (Suc i)). fst x < fst y"
  proof (intro ballI)
    fix x y
    assume x: "x \<in> set (map (\<lambda>(q, s). (i # q, s)) (textNodes c))"
      and y: "y \<in> set (textNodes_children cs (Suc i))"
    from x obtain q where xq: "fst x = i # q" by auto
    from textNodes_children_heads[of "fst y" "snd y" cs "Suc i"] y
    obtain j r where "fst y = j # r" "Suc i \<le> j" by auto
    with xq show "fst x < fst y" by simp
  qed
  from a b 4(2) show ?case by (simp add: sorted_wrt_append)
qed

lemma distinct_textNodes: "distinct (map fst (textNodes n))"
  using sorted_textNodes(1)[of n] by (simp add: strict_sorted_iff)



section \<open>The offset-to-text-node mapping\<close>

text \<open>
  C10 (as stated): when the target offset lies on the boundary between two consecutive text
  nodes, \<open>findTextNodeAtOffset\<close> returns the earlier of the two with the local offset equal
  to its length. With an empty text node between two others the boundary after the empty
  node is also the boundary before it, and the search stops one node earlier still: for the
  text nodes \<open>ab\<close>, the empty node and \<open>cd\<close>, and target 2 (the boundary between the second
  and the third node), the result is the first node at offset 2, not the second node at
  offset 0.
\<close>

theorem findTextNodeAtOffset_empty_node_counterexample:
  "textNodes doc_empty_text = [([0], ''ab''), ([1], []), ([2], ''cd'')] \<and>
   textLen (take 2 (textNodes doc_empty_text)) = 2 \<and>
   findTextNodeAtOffset doc_empty_text 2 = Some ([0], 2) \<and>
   findTextNodeAtOffset doc_empty_text 2 \<noteq> Some ([1], 0)"
  by (simp add: doc_empty_text_def findTextNodeAtOffset_def)

text \<open>
  C10 (amended): \<open>findTextNodeAtOffset\<close> returns null when the target offset exceeds the
  length of the text under the rootNode. When the target offset is the boundary after the
  \<open>k\<close>-th text node (in document order) and another text node follows, the result is never
  that later node at offset 0; and it is the \<open>k\<close>-th node itself, with the local offset equal
  to its full length, whenever that node is not empty or is the first text node.
\<close>

theorem findTextNodeAtOffset_boundary:
  "(length (textContent rootNode) < target \<longrightarrow> findTextNodeAtOffset rootNode target = None) \<and>
   (Suc k < length (textNodes rootNode) \<and> target = textLen (take (Suc k) (textNodes rootNode)) \<longrightarrow>
      findTextNodeAtOffset rootNode target \<noteq> Some (fst (textNodes rootNode ! Suc k), 0) \<and>
      (k = 0 \<or> snd (textNodes rootNode ! k) \<noteq> [] \<longrightarrow>
         findTextNodeAtOffset rootNode target =
           Some (fst (textNodes rootNode ! k), length (snd (textNodes rootNode ! k)))))"
proof (intro conjI impI)
  assume "length (textContent rootNode) < target"
  then show "findTextNodeAtOffset rootNode target = None"
    using findIn_bound[of target 0 "textNodes rootNode"]
    by (cases "findIn target 0 (textNodes rootNode)")
       (auto simp: findTextNodeAtOffset_findIn textLen_textNodes)
next
  assume a: "Suc k < length (textNodes rootNode) \<and> target = textLen (take (Suc k) (textNodes rootNode))"
  show "findTextNodeAtOffset rootNode target \<noteq> Some (fst (textNodes rootNode ! Suc k), 0)"
  proof
    assume "findTextNodeAtOffset rootNode target = Some (fst (textNodes rootNode ! Suc k), 0)"
    then have "findIn target 0 (textNodes rootNode) = Some (fst (textNodes rootNode ! Suc k), 0)"
      by (simp add: findTextNodeAtOffset_findIn)
    from findIn_index[OF this, of k] a
    obtain j where j: "j \<le> k" "fst (textNodes rootNode ! Suc k) = fst (textNodes rootNode ! j)"
      by auto
    with a have "map fst (textNodes rootNode) ! Suc k = map fst (textNodes rootNode) ! j" by simp
    moreover have "Suc k < length (map fst (textNodes rootNode))" "j < length (map fst (textNodes rootNode))"
      using a j(1) by simp_all
    ultimately have "Suc k = j"
      using nth_eq_iff_index_eq[OF distinct_textNodes[of rootNode], of "Suc k" j] by simp
    with j(1) show False by simp
  qed
next
  assume a: "Suc k < length (textNodes rootNode) \<and> target = textLen (take (Suc k) (textNodes rootNode))"
    and b: "k = 0 \<or> snd (textNodes rootNode ! k) \<noteq> []"
  from a have "k < length (textNodes rootNode)" by simp
  from findIn_boundary[OF this _ b, of target 0] a
  show "findTextNodeAtOffset rootNode target =
          Some (fst (textNodes rootNode ! k), length (snd (textNodes rootNode ! k)))"
    by (simp add: findTextNodeAtOffset_findIn)
qed

theorem findTextNodeAtOffset_boundary_witness:
  "length (textContent doc_bold) < 7 \<and> findTextNodeAtOffset doc_bold 7 = None \<and>
   Suc 0 < length (textNodes doc_bold) \<and> 2 = textLen (take (Suc 0) (textNodes doc_bold)) \<and>
   findTextNodeAtOffset doc_bold 2 \<noteq> Some ([1, 0], 0) \<and>
   findTextNodeAtOffset doc_bold 2 = Some ([0], 2)"
  using findTextNodeAtOffset_boundary[of doc_bold 7 0] findTextNodeAtOffset_boundary[of doc_bold 2 0]
  by (simp add: doc_bold_def)

section \<open>Text quote descriptors\<close>

lemma substring_ordered:
  "a \<le> b \<Longrightarrow> substring s a b = drop a (take b s)"
  by (simp add: substring_def Let_def drop_take min_def max_def)

text \<open>
  C8: the descriptor built by \<open>createTextQuote\<close> has \<open>exact\<close> equal to the range's string,
  \<open>prefix\<close> equal to the (at most 32) characters of the start container's own text content
  that end at \<open>startOffset\<close>, and \<open>suffix\<close> equal to the (at most 32) characters of the end
  container's own text content that begin at \<open>endOffset\<close>.
\<close>

theorem createTextQuote_context:
  "exact (createTextQuote d r) = range_toString d r \<and>
   prefix (createTextQuote d r) =
     drop (startOffset r - 32) (take (startOffset r) (textContentAt d (startContainer r))) \<and>
   length (prefix (createTextQuote d r)) \<le> 32 \<and>
   suffix (createTextQuote d r) =
     take 32 (drop (endOffset r) (textContentAt d (endContainer r))) \<and>
   length (suffix (createTextQuote d r)) \<le> 32"
proof -
  have n: "nat (max 0 (int (startOffset r) - 32)) = startOffset r - 32" by simp
  have p: "prefix (createTextQuote d r) =
     drop (startOffset r - 32) (take (startOffset r) (textContentAt d (startContainer r)))"
    unfolding createTextQuote_def Let_def n by (simp add: substring_ordered)
  have s: "suffix (createTextQuote d r) =
     take 32 (drop (endOffset r) (textContentAt d (endContainer r)))"
    by (simp add: createTextQuote_def Let_def substring_ordered drop_take)
  have e: "exact (createTextQuote d r) = range_toString d r"
    by (simp add: createTextQuote_def Let_def)
  from p have "length (prefix (createTextQuote d r)) \<le> 32" by simp
  moreover from s have "length (suffix (createTextQuote d r)) \<le> 32" by simp
  ultimately show ?thesis using p s e by simp
qed

theorem createTextQuote_context_witness:
  "createTextQuote doc_bold
     \<lparr>startContainer = [0], startOffset = 1, endContainer = [2], endOffset = 1\<rparr>
   = \<lparr>exact = ''bcde'', prefix = ''a'', suffix = ''f''\<rparr>"
proof -
  let ?r = "\<lparr>startContainer = [0], startOffset = 1, endContainer = [2], endOffset = 1\<rparr>"
  have a: "range_toString doc_bold ?r = ''bcde''"
    by (simp add: doc_bold_def range_toString_def textData_def contained_def)
  have b: "textContentAt doc_bold [0] = ''ab''" "textContentAt doc_bold [2] = ''ef''"
    by (simp_all add: doc_bold_def textContentAt_def)
  from createTextQuote_context[of doc_bold ?r]
  have "exact (createTextQuote doc_bold ?r) = ''bcde''"
    "prefix (createTextQuote doc_bold ?r) = ''a''"
    "suffix (createTextQuote doc_bold ?r) = ''f''"
    by (simp_all only: a b dom_range.simps) simp_all
  then show ?thesis by (cases "createTextQuote doc_bold ?r") simp
qed
section \<open>Rectangle detection\<close>

lemma norm_le: "normMinX r \<le> normMaxX r" "normMinY r \<le> normMaxY r"
  by (simp_all add: normMinX_def normMaxX_def normMinY_def normMaxY_def)

























section \<open>Boundary points, text nodes and ranges\<close>

lemma isPrefix_iff: "isPrefix p q \<longleftrightarrow> (\<exists>r. q = p @ r)"
  by (induction p q rule: isPrefix.induct) auto

lemma isPrefix_refl [simp]: "isPrefix p p"
  by (simp add: isPrefix_iff)

lemma isPrefix_append [simp]: "isPrefix p (p @ r)"
  by (simp add: isPrefix_iff)

lemma nil_less_snoc [simp]: "[] < p @ [k]"
  by (cases p) auto

lemma position_lex:
  "position p k q l = Before \<longleftrightarrow> p @ [k] < q @ [l]"
  "position p k q l = After \<longleftrightarrow> q @ [l] < p @ [k]"
  "position p k q l = Equal \<longleftrightarrow> p @ [k] = q @ [l]"
  by (induction p k q l rule: position.induct) auto

lemma nodeAt_append:
  "nodeAt n (p @ q) = (case nodeAt n p of None \<Rightarrow> None | Some m \<Rightarrow> nodeAt m q)"
  by (induction n p rule: nodeAt.induct) auto

lemma text_leaf:
  "nodeAt d q = Some (Text s) \<Longrightarrow> nodeAt d p = Some n \<Longrightarrow> isPrefix q p \<Longrightarrow> p = q"
  by (auto simp: isPrefix_iff nodeAt_append split: option.splits) (metis nodeAt.simps(2) list.exhaust option.distinct(1))

lemma less_append_diverge:
  "x < y \<Longrightarrow> \<not> isPrefix x y \<Longrightarrow> x @ a < y @ b"
  by (induction x y rule: isPrefix.induct) auto

lemma append_less_diverge:
  "x @ a < y @ b \<Longrightarrow> \<not> isPrefix x y \<Longrightarrow> \<not> isPrefix y x \<Longrightarrow> x < y"
  by (induction x y rule: isPrefix.induct) auto

lemma prefix_le: "isPrefix x y \<Longrightarrow> x \<le> y"
  by (induction x y rule: isPrefix.induct) auto

lemma textNodes_nodeAt:
  "(q, s) \<in> set (textNodes n) \<longleftrightarrow> nodeAt n q = Some (Text s)"
  "(q, s) \<in> set (textNodes_children cs i) \<longleftrightarrow>
     (\<exists>j r. q = (i + j) # r \<and> j < length cs \<and> nodeAt (cs ! j) r = Some (Text s))"
proof (induction n and cs i arbitrary: q s and q s rule: textNodes_textNodes_children.induct)
  case (1 s')
  show ?case by (cases q) auto
next
  case (2 t a cs)
  show ?case by (cases q) (auto simp: 2)
next
  case (3 i)
  show ?case by simp
next
  case (4 c cs i)
  have A: "(q, s) \<in> set (map (\<lambda>(q, s). (i # q, s)) (textNodes c)) \<longleftrightarrow>
           (\<exists>r. q = i # r \<and> nodeAt c r = Some (Text s))"
    using 4(1) by auto
  have B: "(q, s) \<in> set (textNodes_children cs (Suc i)) \<longleftrightarrow>
     (\<exists>j r. q = (Suc i + j) # r \<and> j < length cs \<and> nodeAt (cs ! j) r = Some (Text s))"
    using 4(2) by simp
  have C: "(\<exists>j r. q = (i + j) # r \<and> j < length (c # cs) \<and> nodeAt ((c # cs) ! j) r = Some (Text s))
        \<longleftrightarrow> (\<exists>r. q = i # r \<and> nodeAt c r = Some (Text s)) \<or>
            (\<exists>j r. q = (Suc i + j) # r \<and> j < length cs \<and> nodeAt (cs ! j) r = Some (Text s))"
    (is "?L \<longleftrightarrow> ?R1 \<or> ?R2")
  proof
    assume ?L
    then obtain j r where j: "q = (i + j) # r" "j < length (c # cs)"
      "nodeAt ((c # cs) ! j) r = Some (Text s)" by blast
    show "?R1 \<or> ?R2"
    proof (cases j)
      case 0
      with j show ?thesis by simp
    next
      case (Suc j')
      with j have "q = (Suc i + j') # r \<and> j' < length cs \<and> nodeAt (cs ! j') r = Some (Text s)"
        by simp
      then show ?thesis by blast
    qed
  next
    assume "?R1 \<or> ?R2"
    then show ?L
    proof
      assume ?R1
      then obtain r where "q = (i + 0) # r \<and> 0 < length (c # cs) \<and>
        nodeAt ((c # cs) ! 0) r = Some (Text s)" by auto
      then show ?L by blast
    next
      assume ?R2
      then obtain j r where "q = (i + Suc j) # r \<and> Suc j < length (c # cs) \<and>
        nodeAt ((c # cs) ! Suc j) r = Some (Text s)" by auto
      then show ?L by blast
    qed
  qed
  show ?case unfolding C using A B by auto
qed

lemma textNodes_children_0:
  "(q, s) \<in> set (textNodes_children cs 0) \<longleftrightarrow> nodeAt (Elem t a cs) q = Some (Text s)"
  using textNodes_nodeAt(1)[of q s "Elem t a cs"] by simp

lemma filter_textNodes_children:
  "filter (\<lambda>(q, s). \<exists>r. q = i # r \<and> P r) (textNodes_children cs k) =
     (if k \<le> i \<and> i - k < length cs
      then map (\<lambda>(q, s). (i # q, s)) (filter (\<lambda>(q, s). P q) (textNodes (cs ! (i - k))))
      else [])"
proof (induction cs arbitrary: k)
  case Nil
  show ?case by simp
next
  case (Cons c cs)
  have rest: "filter (\<lambda>(q, s). \<exists>r. q = i # r \<and> P r) (textNodes_children cs (Suc k)) =
     (if Suc k \<le> i \<and> i - Suc k < length cs
      then map (\<lambda>(q, s). (i # q, s)) (filter (\<lambda>(q, s). P q) (textNodes (cs ! (i - Suc k))))
      else [])" by (rule Cons.IH)
  have first: "filter (\<lambda>(q, s). \<exists>r. q = i # r \<and> P r) (map (\<lambda>(q, s). (k # q, s)) (textNodes c)) =
     (if k = i then map (\<lambda>(q, s). (i # q, s)) (filter (\<lambda>(q, s). P q) (textNodes c)) else [])"
    by (induction "textNodes c") (auto simp: filter_map comp_def case_prod_unfold)
  show ?case
  proof (cases "k = i")
    case True
    with first rest show ?thesis by simp
  next
    case False
    show ?thesis
    proof (cases "k < i")
      case True
      then obtain m where m: "i - k = Suc m" by (cases "i - k") auto
      then have "i - Suc k = m" by simp
      with first rest False True m show ?thesis by auto
    next
      case ge: False
      with first rest False show ?thesis by auto
    qed
  qed
qed

lemma filter_nonroot_textNodes:
  "filter (\<lambda>(q, s). q \<noteq> []) (textNodes n) =
     (case n of Text s \<Rightarrow> [] | Elem t a cs \<Rightarrow> textNodes_children cs 0)"
proof (cases n)
  case (Text s)
  then show ?thesis by simp
next
  case (Elem t a cs)
  have "\<forall>x\<in>set (textNodes_children cs 0). (case x of (q, s) \<Rightarrow> q \<noteq> [])"
    using textNodes_children_heads[of _ _ cs 0] by auto
  then have "filter (\<lambda>(q, s). q \<noteq> []) (textNodes_children cs 0) = textNodes_children cs 0"
    by (simp add: filter_id_conv)
  with Elem show ?thesis by simp
qed

lemma treeWalker_filter:
  "treeWalkerTextNodes d ca =
     filter (\<lambda>(q, s). isPrefix ca q \<and> q \<noteq> ca) (textNodes d)"
proof (induction ca arbitrary: d)
  case Nil
  show ?case using filter_nonroot_textNodes[of d]
    by (cases d) (simp_all add: treeWalkerTextNodes_def)
next
  case (Cons i ca)
  show ?case
  proof (cases d)
    case (Text s)
    then show ?thesis by (simp add: treeWalkerTextNodes_def)
  next
    case (Elem t a cs)
    have pred: "(\<lambda>(q, s). isPrefix (i # ca) q \<and> q \<noteq> i # ca) =
                (\<lambda>(q, s::string). \<exists>r. q = i # r \<and> (isPrefix ca r \<and> r \<noteq> ca))"
      by (rule ext) (auto simp: isPrefix_iff)
    show ?thesis
    proof (cases "i < length cs")
      case True
      have "treeWalkerTextNodes d (i # ca) =
            map (\<lambda>(q, s). (i # q, s)) (treeWalkerTextNodes (cs ! i) ca)"
        using Elem True
        by (auto simp: treeWalkerTextNodes_def comp_def case_prod_unfold
            split: option.splits node.splits)
      also have "\<dots> = map (\<lambda>(q, s). (i # q, s))
            (filter (\<lambda>(q, s). isPrefix ca q \<and> q \<noteq> ca) (textNodes (cs ! i)))"
        by (simp add: Cons.IH)
      also have "\<dots> = filter (\<lambda>(q, s). isPrefix (i # ca) q \<and> q \<noteq> i # ca) (textNodes d)"
        unfolding pred using Elem True
        by (simp add: filter_textNodes_children[where P="\<lambda>r. isPrefix ca r \<and> r \<noteq> ca"])
      finally show ?thesis .
    next
      case False
      then show ?thesis unfolding pred using Elem
        by (simp add: treeWalkerTextNodes_def
            filter_textNodes_children[where P="\<lambda>r. isPrefix ca r \<and> r \<noteq> ca"])
    qed
  qed
qed

lemma between_prefix:
  "p < q \<Longrightarrow> q < p @ [k] \<Longrightarrow> isPrefix p q"
proof (induction p q rule: isPrefix.induct)
  case (1 q)
  then show ?case by simp
next
  case (2 i p)
  then show ?case by simp
next
  case (3 i p j q)
  from 3(2,3) have "i = j" by (simp split: if_splits) (metis order_less_asym')
  with 3 show ?case by simp
qed

lemma less_next_sibling:
  "q \<noteq> [] \<Longrightarrow> q @ a < butlast q @ [Suc (last q)]"
proof (induction q)
  case Nil
  then show ?case by simp
next
  case (Cons i q)
  show ?case
  proof (cases q)
    case Nil
    then show ?thesis by simp
  next
    case (Cons j q')
    with Cons.IH show ?thesis by simp
  qed
qed

lemma between_siblings_prefix:
  "q \<noteq> [] \<Longrightarrow> q < x \<Longrightarrow> x < butlast q @ [Suc (last q)] \<Longrightarrow> isPrefix q x"
proof (induction q arbitrary: x)
  case Nil
  then show ?case by simp
next
  case (Cons i q)
  from Cons.prems(2) obtain j x' where x: "x = j # x'" by (cases x) auto
  show ?case
  proof (cases q)
    case Nil
    with Cons.prems x have "i < j \<or> i = j" "j < Suc i \<or> j = Suc i \<and> x' < []" by auto
    then have "i = j" by auto
    with Nil x show ?thesis by simp
  next
    case (Cons i2 q')
    with Cons.prems x have a: "i < j \<or> i = j \<and> q < x'"
      and b: "j < i \<or> j = i \<and> x' < butlast q @ [Suc (last q)]" by auto
    from a b have ij: "i = j" by auto
    with a b have "q < x'" "x' < butlast q @ [Suc (last q)]" by auto
    with Cons.IH[of x'] Cons have "isPrefix q x'" by simp
    with ij x show ?thesis by simp
  qed
qed

lemma interval_prefix:
  "isPrefix c lo \<Longrightarrow> isPrefix c hi \<Longrightarrow> lo \<le> q \<Longrightarrow> q < hi \<Longrightarrow> isPrefix c q"
proof (induction c arbitrary: lo hi q)
  case Nil
  then show ?case by simp
next
  case (Cons i c)
  from Cons.prems(1) obtain lo' where lo: "lo = i # lo'" "isPrefix c lo'" by (cases lo) auto
  from Cons.prems(2) obtain hi' where hi: "hi = i # hi'" "isPrefix c hi'" by (cases hi) auto
  from Cons.prems(3) lo obtain j q' where q: "q = j # q'" by (cases q) auto
  from Cons.prems(3,4) lo hi q have a: "i < j \<or> i = j \<and> lo' \<le> q'"
    and b: "j < i \<or> j = i \<and> q' < hi'" by auto
  from a b have ij: "i = j" by auto
  with a b have "lo' \<le> q'" "q' < hi'" by auto
  with Cons.IH[OF lo(2) hi(2)] q ij show ?case by simp
qed

lemma same_prefix_less [simp]: "(p::path) @ a < p @ b \<longleftrightarrow> a < b"
  by (induction p) auto

lemma less_snoc [simp]: "q < q @ [j]"
  by (induction q) auto

lemma append_eq_snoc_prefix:
  "p @ [k] = q @ r \<Longrightarrow> r \<noteq> [] \<Longrightarrow> isPrefix q p"
  by (cases r rule: rev_cases) (auto simp: isPrefix_iff)

lemma key_side_before:
  assumes q: "nodeAt d q = Some (Text s)" and p: "nodeAt d p = Some n"
    and ne: "q \<noteq> p" and lt: "q < p @ [k]"
  shows "q @ a < p @ [k]"
proof -
  have "\<not> isPrefix q (p @ [k])"
  proof
    assume "isPrefix q (p @ [k])"
    then obtain r where r: "p @ [k] = q @ r" by (auto simp: isPrefix_iff)
    with lt have "r \<noteq> []" by auto
    from append_eq_snoc_prefix[OF r this] text_leaf[OF q p] ne show False by auto
  qed
  with less_append_diverge[OF lt this, of a "[]"] show ?thesis by simp
qed

lemma key_side_after:
  fixes q :: path
  assumes "\<not> q < b"
  shows "b < q @ [j]"
proof -
  from assms have "b \<le> q" by simp
  also have "q < q @ [j]" by simp
  finally show ?thesis .
qed

lemma contained_iff:
  assumes q: "nodeAt d q = Some (Text s)"
    and vs: "valid_point d (startContainer r) (startOffset r)"
    and ve: "valid_point d (endContainer r) (endOffset r)"
  shows "contained r q (length s) \<longleftrightarrow>
         q \<noteq> startContainer r \<and> q \<noteq> endContainer r \<and>
         \<not> q < startContainer r @ [startOffset r] \<and> q < endContainer r @ [endOffset r]"
proof -
  obtain ns ne where ns: "nodeAt d (startContainer r) = Some ns"
    and ne: "nodeAt d (endContainer r) = Some ne"
    and eo: "endOffset r \<le> nodeLength ne"
    using vs ve by (auto simp: valid_point_def split: option.splits)
  show ?thesis
  proof (cases "q = startContainer r")
    case True
    then show ?thesis by (simp add: contained_def position_lex)
  next
    case nsp: False
    show ?thesis
    proof (cases "q = endContainer r")
      case True
      with q ne eo show ?thesis by (simp add: contained_def position_lex)
    next
      case nep: False
      have a: "startContainer r @ [startOffset r] < q @ [0] \<longleftrightarrow>
               \<not> q < startContainer r @ [startOffset r]"
        using key_side_before[OF q ns nsp, of "startOffset r" "[0]"] key_side_after[of q _ 0]
        by (auto dest: less_asym)
      have b: "q @ [length s] < endContainer r @ [endOffset r] \<longleftrightarrow>
               q < endContainer r @ [endOffset r]"
        using key_side_before[OF q ne nep, of "endOffset r" "[length s]"]
          less_trans[OF less_snoc[of q "length s"]]
        by auto
      from a b nsp nep show ?thesis by (simp add: contained_def position_lex)
    qed
  qed
qed

lemma valid_range_order:
  "valid_range d r \<Longrightarrow>
   \<not> endContainer r @ [endOffset r] < startContainer r @ [startOffset r]"
  by (simp add: valid_range_def position_lex)

lemma valid_range_points:
  "valid_range d r \<Longrightarrow> valid_point d (startContainer r) (startOffset r)"
  "valid_range d r \<Longrightarrow> valid_point d (endContainer r) (endOffset r)"
  by (simp_all add: valid_range_def)

lemma valid_point_text:
  "valid_point d p k \<Longrightarrow> nodeAt d p = Some (Text s) \<Longrightarrow> k \<le> length s"
  by (simp add: valid_point_def)

lemma valid_point_node:
  "valid_point d p k \<Longrightarrow> \<exists>n. nodeAt d p = Some n"
  by (auto simp: valid_point_def split: option.splits)

lemma cut_mid:
  assumes vr: "valid_range d r" and q: "nodeAt d q = Some (Text s)"
    and "q \<noteq> startContainer r" "q \<noteq> endContainer r"
  shows "cut r (q, s) = (if contained r q (length s) then s else [])"
  using assms contained_iff[OF q valid_range_points[OF vr]]
  by (simp add: cut_def charsBefore_def)

lemma cut_start:
  assumes vr: "valid_range d r" and q: "nodeAt d q = Some (Text s)"
    and "q = startContainer r" "q \<noteq> endContainer r"
  shows "cut r (q, s) = drop (startOffset r) s" "\<not> contained r q (length s)"
proof -
  have "q < q @ [startOffset r]" by simp
  with valid_range_order[OF vr] assms(3)
  have "q < endContainer r @ [endOffset r]" by (metis less_trans not_less_iff_gr_or_eq)
  with assms valid_point_text[OF valid_range_points(1)[OF vr]]
  show "cut r (q, s) = drop (startOffset r) s"
    by (simp add: cut_def charsBefore_def)
  from assms contained_iff[OF q valid_range_points[OF vr]]
  show "\<not> contained r q (length s)" by simp
qed

lemma cut_end:
  assumes vr: "valid_range d r" and q: "nodeAt d q = Some (Text s)"
    and "q \<noteq> startContainer r" "q = endContainer r"
  shows "cut r (q, s) = take (endOffset r) s" "\<not> contained r q (length s)"
proof -
  obtain n where n: "nodeAt d (startContainer r) = Some n"
    using valid_point_node[OF valid_range_points(1)[OF vr]] by blast
  have "\<not> q < startContainer r @ [startOffset r]"
  proof
    assume "q < startContainer r @ [startOffset r]"
    from key_side_before[OF q n assms(3) this, of "[endOffset r]"]
      valid_range_order[OF vr] assms(4)
    show False by simp
  qed
  with assms valid_point_text[OF valid_range_points(2)[OF vr]]
  show "cut r (q, s) = take (endOffset r) s"
    by (simp add: cut_def charsBefore_def)
  from assms contained_iff[OF q valid_range_points[OF vr]]
  show "\<not> contained r q (length s)" by simp
qed

lemma cut_both:
  assumes vr: "valid_range d r" and q: "nodeAt d q = Some (Text s)"
    and "q = startContainer r" "q = endContainer r"
  shows "cut r (q, s) = drop (startOffset r) (take (endOffset r) s)"
  using assms valid_point_text[OF valid_range_points(1)[OF vr]]
    valid_point_text[OF valid_range_points(2)[OF vr]]
  by (simp add: cut_def charsBefore_def)

lemma cut_before_start:
  assumes vr: "valid_range d r" and q: "nodeAt d q = Some (Text s)"
    and lt: "q < startContainer r"
  shows "cut r (q, s) = []" "\<not> contained r q (length s)"
proof -
  have "startContainer r < startContainer r @ [startOffset r]" by simp
  with lt have b: "q < startContainer r @ [startOffset r]" by (rule less_trans)
  from lt have ne: "q \<noteq> startContainer r" by auto
  from b ne show "cut r (q, s) = []" by (simp add: cut_def charsBefore_def)
  from b contained_iff[OF q valid_range_points[OF vr]]
  show "\<not> contained r q (length s)" by simp
qed

lemma cut_after_end:
  assumes vr: "valid_range d r" and q: "nodeAt d q = Some (Text s)"
    and e: "nodeAt d (endContainer r) = Some (Text s2)"
    and lt: "endContainer r < q"
  shows "cut r (q, s) = []" "\<not> contained r q (length s)"
    "q \<noteq> startContainer r"
proof -
  from lt have ne: "q \<noteq> endContainer r" by auto
  have nb: "\<not> q < endContainer r @ [endOffset r]"
  proof
    assume "q < endContainer r @ [endOffset r]"
    from between_prefix[OF lt this] text_leaf[OF e q] ne show False by auto
  qed
  show ns: "q \<noteq> startContainer r"
  proof
    assume eq: "q = startContainer r"
    have "\<not> isPrefix (endContainer r) q" using text_leaf[OF e q] ne by auto
    from less_append_diverge[OF lt this, of "[endOffset r]" "[startOffset r]"]
      valid_range_order[OF vr] eq show False by simp
  qed
  from nb ne show "cut r (q, s) = []" by (simp add: cut_def charsBefore_def)
  from nb contained_iff[OF q valid_range_points[OF vr]]
  show "\<not> contained r q (length s)" by simp
qed

lemma sorted_split:
  assumes "sorted_wrt (<) (map fst T)" and "(p, s) \<in> set T"
  shows "\<exists>A B. T = A @ (p, s) # B \<and> (\<forall>x\<in>set A. fst x < p) \<and> (\<forall>x\<in>set B. p < fst x)"
proof -
  from assms(2) obtain A B where T: "T = A @ (p, s) # B" by (auto dest: split_list)
  with assms(1) have "(\<forall>x\<in>set A. fst x < p) \<and> (\<forall>x\<in>set B. p < fst x)"
    by (auto simp: sorted_wrt_append)
  with T show ?thesis by blast
qed

lemma concat_map_if:
  "concat (map (\<lambda>x. if P x then f x else []) xs) = concat (map f (filter P xs))"
  by (induction xs) auto

lemma concat_map_cong:
  "(\<And>x. x \<in> set xs \<Longrightarrow> f x = g x) \<Longrightarrow> concat (map f xs) = concat (map g xs)"
  by (induction xs) auto

lemma concat_map_nil:
  "(\<And>x. x \<in> set xs \<Longrightarrow> f x = []) \<Longrightarrow> concat (map f xs) = []"
  by (induction xs) auto

lemma filter_none:
  "(\<And>x. x \<in> set xs \<Longrightarrow> \<not> P x) \<Longrightarrow> filter P xs = []"
  by (induction xs) auto

lemma containedNode_conv: "(\<lambda>(q, t). contained r q (length t)) = containedNode r"
  by (rule ext) (simp add: containedNode_def case_prod_unfold)

lemma end_part:
  assumes vr: "valid_range d r"
    and L: "\<And>x. x \<in> set L \<Longrightarrow> nodeAt d (fst x) = Some (Text (snd x))"
    and ns: "\<And>x. x \<in> set L \<Longrightarrow> fst x \<noteq> startContainer r"
    and sorted: "sorted_wrt (<) (map fst L)"
    and e: "\<And>s2. nodeAt d (endContainer r) = Some (Text s2) \<Longrightarrow> (endContainer r, s2) \<in> set L"
  shows "concat (map (cut r) L) =
         concat (map snd (filter (containedNode r) L)) @
         (case textData d (endContainer r) of Some e \<Rightarrow> take (endOffset r) e | None \<Rightarrow> [])"
proof (cases "textData d (endContainer r)")
  case None
  have "\<And>x. x \<in> set L \<Longrightarrow> cut r x = (if containedNode r x then snd x else [])"
  proof -
    fix x assume x: "x \<in> set L"
    from L[OF x] None have "fst x \<noteq> endContainer r" by (auto simp: textData_def)
    from cut_mid[OF vr L[OF x] ns[OF x] this] show "cut r x = (if containedNode r x then snd x else [])"
      by (simp add: containedNode_def)
  qed
  then have "concat (map (cut r) L) = concat (map (\<lambda>x. if containedNode r x then snd x else []) L)"
    by (rule concat_map_cong)
  with None show ?thesis by (simp add: concat_map_if)
next
  case (Some s2)
  then have t: "nodeAt d (endContainer r) = Some (Text s2)"
    by (auto simp: textData_def split: option.splits node.splits)
  from sorted_split[OF sorted e[OF t]] obtain M Z where
    split: "L = M @ (endContainer r, s2) # Z"
    and M: "\<forall>x\<in>set M. fst x < endContainer r" and Z: "\<forall>x\<in>set Z. endContainer r < fst x"
    by blast
  have inL: "\<And>x. x \<in> set M \<Longrightarrow> x \<in> set L" "\<And>x. x \<in> set Z \<Longrightarrow> x \<in> set L"
    "(endContainer r, s2) \<in> set L" using split by auto
  have m: "\<And>x. x \<in> set M \<Longrightarrow> cut r x = (if containedNode r x then snd x else [])"
  proof -
    fix x assume x: "x \<in> set M"
    with M have "fst x \<noteq> endContainer r" by auto
    from cut_mid[OF vr L[OF inL(1)[OF x]] ns[OF inL(1)[OF x]] this]
    show "cut r x = (if containedNode r x then snd x else [])"
      by (simp add: containedNode_def)
  qed
  have z: "\<And>x. x \<in> set Z \<Longrightarrow> cut r x = []" "\<And>x. x \<in> set Z \<Longrightarrow> \<not> containedNode r x"
  proof -
    fix x assume x: "x \<in> set Z"
    with Z have lt: "endContainer r < fst x" by auto
    from cut_after_end[OF vr L[OF inL(2)[OF x]] t lt]
    show "cut r x = []" "\<not> containedNode r x" by (simp_all add: containedNode_def)
  qed
  have nse: "endContainer r \<noteq> startContainer r" using ns[OF inL(3)] by simp
  from cut_end[OF vr t nse refl]
  have ce: "cut r (endContainer r, s2) = take (endOffset r) s2"
    "\<not> containedNode r (endContainer r, s2)" by (simp_all add: containedNode_def)
  have "concat (map (cut r) M) = concat (map (\<lambda>x. if containedNode r x then snd x else []) M)"
    using m by (rule concat_map_cong)
  moreover have "concat (map (cut r) Z) = []" using z(1) by (rule concat_map_nil)
  moreover have "filter (containedNode r) Z = []" using z(2) by (rule filter_none)
  ultimately show ?thesis using split ce Some by (simp add: concat_map_if)
qed

lemma textData_Some: "textData d p = Some s \<longleftrightarrow> nodeAt d p = Some (Text s)"
  by (auto simp: textData_def split: option.splits node.splits)

lemma range_toString_cut:
  assumes vr: "valid_range d r"
  shows "range_toString d r = concat (map (cut r) (textNodes d))"
proof -
  let ?T = "textNodes d"
  have tn: "\<And>x. x \<in> set ?T \<Longrightarrow> nodeAt d (fst x) = Some (Text (snd x))"
    using textNodes_nodeAt(1)[of _ _ d] by (metis prod.collapse)
  have sorted: "sorted_wrt (<) (map fst ?T)" by (rule sorted_textNodes)
  have etext: "\<And>s2. nodeAt d (endContainer r) = Some (Text s2) \<Longrightarrow> (endContainer r, s2) \<in> set ?T"
    by (simp add: textNodes_nodeAt)
  show ?thesis
  proof (cases "textData d (startContainer r)")
    case None
    have ns: "\<And>x. x \<in> set ?T \<Longrightarrow> fst x \<noteq> startContainer r"
      using tn None by (auto simp: textData_def)
    from end_part[OF vr tn ns sorted etext] None show ?thesis
      by (simp add: range_toString_def containedNode_conv)
  next
    case (Some s1)
    then have st: "nodeAt d (startContainer r) = Some (Text s1)" by (simp add: textData_Some)
    then have "(startContainer r, s1) \<in> set ?T" by (simp add: textNodes_nodeAt)
    from sorted_split[OF sorted this] obtain A B where
      split: "?T = A @ (startContainer r, s1) # B"
      and A: "\<forall>x\<in>set A. fst x < startContainer r" and B: "\<forall>x\<in>set B. startContainer r < fst x"
      by blast
    have inT: "\<And>x. x \<in> set A \<Longrightarrow> x \<in> set ?T" "\<And>x. x \<in> set B \<Longrightarrow> x \<in> set ?T"
      using split by auto
    have a: "\<And>x. x \<in> set A \<Longrightarrow> cut r x = []" "\<And>x. x \<in> set A \<Longrightarrow> \<not> containedNode r x"
    proof -
      fix x assume x: "x \<in> set A"
      with A have lt: "fst x < startContainer r" by auto
      from cut_before_start[OF vr tn[OF inT(1)[OF x]] lt]
      show "cut r x = []" "\<not> containedNode r x" by (simp_all add: containedNode_def)
    qed
    have cA: "concat (map (cut r) A) = []" using a(1) by (rule concat_map_nil)
    have fA: "filter (containedNode r) A = []" using a(2) by (rule filter_none)
    show ?thesis
    proof (cases "startContainer r = endContainer r")
      case True
      have b: "\<And>x. x \<in> set B \<Longrightarrow> cut r x = []"
      proof -
        fix x assume x: "x \<in> set B"
        with B True have lt: "endContainer r < fst x" by auto
        from st True have "nodeAt d (endContainer r) = Some (Text s1)" by simp
        from cut_after_end(1)[OF vr tn[OF inT(2)[OF x]] this lt] show "cut r x = []" by simp
      qed
      have cB: "concat (map (cut r) B) = []" using b by (rule concat_map_nil)
      from valid_range_order[OF vr] True have le: "startOffset r \<le> endOffset r" by simp
      have "concat (map (cut r) ?T) =
            concat (map (cut r) A) @ cut r (startContainer r, s1) @ concat (map (cut r) B)"
        unfolding split by simp
      also have "\<dots> = drop (startOffset r) (take (endOffset r) s1)"
        unfolding cA cB cut_both[OF vr st refl True] by simp
      finally have "concat (map (cut r) ?T) = drop (startOffset r) (take (endOffset r) s1)" .
      with Some True le show ?thesis by (simp add: range_toString_def substring_ordered)
    next
      case False
      have nsB: "\<And>x. x \<in> set B \<Longrightarrow> fst x \<noteq> startContainer r" using B by auto
      have sB: "sorted_wrt (<) (map fst B)" using sorted split by (simp add: sorted_wrt_append)
      have eB: "\<And>s2. nodeAt d (endContainer r) = Some (Text s2) \<Longrightarrow> (endContainer r, s2) \<in> set B"
      proof -
        fix s2 assume e: "nodeAt d (endContainer r) = Some (Text s2)"
        from etext[OF e] split False
        have "(endContainer r, s2) \<in> set A \<or> (endContainer r, s2) \<in> set B" by auto
        moreover have "(endContainer r, s2) \<notin> set A"
        proof
          assume "(endContainer r, s2) \<in> set A"
          with A have lt: "endContainer r < startContainer r" by auto
          have "\<not> isPrefix (endContainer r) (startContainer r)"
            using text_leaf[OF e st] False by auto
          from less_append_diverge[OF lt this, of "[endOffset r]" "[startOffset r]"]
            valid_range_order[OF vr] show False by simp
        qed
        ultimately show "(endContainer r, s2) \<in> set B" by simp
      qed
      from cut_start[OF vr st refl False]
      have cs: "cut r (startContainer r, s1) = drop (startOffset r) s1"
        "\<not> containedNode r (startContainer r, s1)" by (simp_all add: containedNode_def)
      from end_part[OF vr tn[OF inT(2)] nsB sB eB]
      have cB: "concat (map (cut r) B) =
         concat (map snd (filter (containedNode r) B)) @
         (case textData d (endContainer r) of Some e \<Rightarrow> take (endOffset r) e | None \<Rightarrow> [])"
        by simp
      have "concat (map (cut r) ?T) =
            concat (map (cut r) A) @ cut r (startContainer r, s1) @ concat (map (cut r) B)"
        unfolding split by simp
      also have "\<dots> = drop (startOffset r) s1 @
         concat (map snd (filter (containedNode r) B)) @
         (case textData d (endContainer r) of Some e \<Rightarrow> take (endOffset r) e | None \<Rightarrow> [])"
        unfolding cA cB cs(1) by simp
      finally have rhs: "concat (map (cut r) ?T) = drop (startOffset r) s1 @
         concat (map snd (filter (containedNode r) B)) @
         (case textData d (endContainer r) of Some e \<Rightarrow> take (endOffset r) e | None \<Rightarrow> [])" .
      have "filter (containedNode r) ?T = filter (containedNode r) B"
        unfolding split using fA cs(2) by simp
      with rhs Some False show ?thesis
        by (simp add: range_toString_def containedNode_conv)
    qed
  qed
qed

lemma loop_filter:
  "getTextNodesInRange_loop r L =
     map (clipFragment r)
       (filter (\<lambda>x. intersectsNode r (fst x) \<and> nonEmpty (clipFragment r x)) L)"
  by (induction r L rule: getTextNodesInRange_loop.induct)
     (auto simp: clipFragment_def nonEmpty_def Let_def)

lemma commonPrefix_isPrefix:
  "isPrefix (commonPrefix p q) p" "isPrefix (commonPrefix p q) q"
  by (induction p q rule: commonPrefix.induct) auto

lemma isPrefix_snoc: "isPrefix c p \<Longrightarrow> isPrefix c (p @ [k])"
  by (auto simp: isPrefix_iff)

lemma snoc_butlast_last: "q \<noteq> [] \<Longrightarrow> butlast q @ [last q] = q"
  by simp

lemma intersectsNode_lex:
  "q \<noteq> [] \<Longrightarrow> intersectsNode r q \<longleftrightarrow>
     q < endContainer r @ [endOffset r] \<and>
     startContainer r @ [startOffset r] < butlast q @ [Suc (last q)]"
  by (simp add: intersectsNode_def position_lex)

lemma after_start_iff:
  assumes q: "nodeAt d q = Some (Text s)" and n: "nodeAt d p = Some n"
    and ne: "q \<noteq> p" and q0: "q \<noteq> []"
  shows "p @ [k] < butlast q @ [Suc (last q)] \<longleftrightarrow> \<not> q < p @ [k]"
proof
  assume a: "p @ [k] < butlast q @ [Suc (last q)]"
  show "\<not> q < p @ [k]"
  proof
    assume b: "q < p @ [k]"
    from between_siblings_prefix[OF q0 b a] obtain r where r: "p @ [k] = q @ r"
      by (auto simp: isPrefix_iff)
    with b have "r \<noteq> []" by auto
    from append_eq_snoc_prefix[OF r this] text_leaf[OF q n] ne show False by auto
  qed
next
  assume "\<not> q < p @ [k]"
  then have "p @ [k] \<le> q" by simp
  also have "q < butlast q @ [Suc (last q)]"
    using less_next_sibling[OF q0, of "[]"] by simp
  finally show "p @ [k] < butlast q @ [Suc (last q)]" .
qed

lemma intersects_text_node:
  assumes vr: "valid_range d r" and q: "nodeAt d q = Some (Text s)" and q0: "q \<noteq> []"
  shows "intersectsNode r q \<longleftrightarrow>
         q = startContainer r \<or> q = endContainer r \<or> contained r q (length s)"
proof -
  obtain ns ne where ns: "nodeAt d (startContainer r) = Some ns"
    and ne: "nodeAt d (endContainer r) = Some ne"
    using valid_point_node[OF valid_range_points(1)[OF vr]]
      valid_point_node[OF valid_range_points(2)[OF vr]] by blast
  note ord = valid_range_order[OF vr]
  show ?thesis
  proof (cases "q = startContainer r")
    case True
    have "q < q @ [startOffset r]" by simp
    with ord True have "q < endContainer r @ [endOffset r]"
      by (metis less_trans not_less_iff_gr_or_eq)
    moreover have "startContainer r @ [startOffset r] < butlast q @ [Suc (last q)]"
      using less_next_sibling[OF q0, of "[startOffset r]"] True by simp
    ultimately have "intersectsNode r q" unfolding intersectsNode_lex[OF q0] by simp
    with True show ?thesis by simp
  next
    case nsp: False
    show ?thesis
    proof (cases "q = endContainer r")
      case True
      have "q @ [endOffset r] < butlast q @ [Suc (last q)]"
        by (rule less_next_sibling[OF q0])
      with ord True have "startContainer r @ [startOffset r] < butlast q @ [Suc (last q)]"
        by (metis less_trans not_less_iff_gr_or_eq)
      moreover have "q < endContainer r @ [endOffset r]" using True by simp
      ultimately have "intersectsNode r q" unfolding intersectsNode_lex[OF q0] by simp
      with True show ?thesis by simp
    next
      case nep: False
      from after_start_iff[OF q ns nsp q0, of "startOffset r"]
        contained_iff[OF q valid_range_points[OF vr]] nsp nep
      show ?thesis unfolding intersectsNode_lex[OF q0] by auto
    qed
  qed
qed

lemma under_commonAncestor:
  assumes vr: "valid_range d r" and q: "nodeAt d q = Some (Text s)"
    and nst: "\<not> singleTextNode d r"
    and i: "q = startContainer r \<or> q = endContainer r \<or> contained r q (length s)"
  shows "isPrefix (commonAncestorContainer r) q \<and> q \<noteq> commonAncestorContainer r"
proof -
  let ?ca = "commonAncestorContainer r"
  obtain ns ne where ns: "nodeAt d (startContainer r) = Some ns"
    and ne: "nodeAt d (endContainer r) = Some ne"
    using valid_point_node[OF valid_range_points(1)[OF vr]]
      valid_point_node[OF valid_range_points(2)[OF vr]] by blast
  have ps: "isPrefix ?ca (startContainer r)" and pe: "isPrefix ?ca (endContainer r)"
    by (simp_all add: commonAncestorContainer_def commonPrefix_isPrefix)
  have notca: "q \<noteq> ?ca"
  proof
    assume "q = ?ca"
    with ps pe text_leaf[OF q ns] text_leaf[OF q ne]
    have "startContainer r = q" "endContainer r = q" by auto
    with q nst show False by (simp add: singleTextNode_def textData_def)
  qed
  have "isPrefix ?ca q"
  proof (cases "q = startContainer r \<or> q = endContainer r")
    case True
    with ps pe show ?thesis by auto
  next
    case False
    with i have "contained r q (length s)" by simp
    with contained_iff[OF q valid_range_points[OF vr]]
    have "startContainer r @ [startOffset r] \<le> q" "q < endContainer r @ [endOffset r]"
      by auto
    from interval_prefix[OF isPrefix_snoc[OF ps] isPrefix_snoc[OF pe] this]
    show ?thesis .
  qed
  with notca show ?thesis by simp
qed

lemma clip_cut:
  assumes vr: "valid_range d r" and q: "nodeAt d q = Some (Text s)" and q0: "q \<noteq> []"
    and nst: "\<not> singleTextNode d r"
  shows "(if intersectsNode r q \<and> nonEmpty (clipFragment r (q, s)) then clipText r (q, s) else [])
         = cut r (q, s)"
proof (cases "q = startContainer r")
  case True
  with q nst have ne: "q \<noteq> endContainer r" by (auto simp: singleTextNode_def textData_def)
  from intersects_text_node[OF vr q q0] True have i: "intersectsNode r q" by simp
  from valid_point_text[OF valid_range_points(1)[OF vr]] q True
  have le: "startOffset r \<le> length s" by simp
  from cut_start(1)[OF vr q True ne] i True ne le show ?thesis
    by (simp add: clipText_def clipFragment_def nonEmpty_def substring_ordered)
next
  case nsp: False
  show ?thesis
  proof (cases "q = endContainer r")
    case True
    from intersects_text_node[OF vr q q0] True have i: "intersectsNode r q" by simp
    from valid_point_text[OF valid_range_points(2)[OF vr]] q True
    have le: "endOffset r \<le> length s" by simp
    from cut_end(1)[OF vr q nsp True] i True nsp le show ?thesis
      by (simp add: clipText_def clipFragment_def nonEmpty_def substring_ordered)
  next
    case nep: False
    from intersects_text_node[OF vr q q0] nsp nep
    have i: "intersectsNode r q \<longleftrightarrow> contained r q (length s)" by simp
    from cut_mid[OF vr q nsp nep] i nsp nep show ?thesis
      by (simp add: clipText_def clipFragment_def nonEmpty_def substring_ordered)
  qed
qed

lemma nodeAt_Text_root: "nodeAt (Text s) p = Some n \<Longrightarrow> p = []"
  by (cases p) auto

lemma not_single_nonroot:
  assumes vr: "valid_range d r" and nst: "\<not> singleTextNode d r"
    and q: "nodeAt d q = Some (Text s)"
  shows "q \<noteq> []"
proof
  assume "q = []"
  with q have d: "d = Text s" by simp
  obtain ns ne where "nodeAt d (startContainer r) = Some ns" "nodeAt d (endContainer r) = Some ne"
    using valid_point_node[OF valid_range_points(1)[OF vr]]
      valid_point_node[OF valid_range_points(2)[OF vr]] by blast
  with d have "startContainer r = []" "endContainer r = []" by (auto dest: nodeAt_Text_root)
  with d nst show False by (simp add: singleTextNode_def textData_def)
qed

lemma getTextNodesInRange_filter:
  assumes vr: "valid_range d r" and nst: "\<not> singleTextNode d r"
  shows "getTextNodesInRange d r =
     map (clipFragment r)
       (filter (\<lambda>x. intersectsNode r (fst x) \<and> nonEmpty (clipFragment r x)) (textNodes d))"
proof -
  have "\<And>x. x \<in> set (textNodes d) \<Longrightarrow>
      ((case x of (q, s) \<Rightarrow> isPrefix (commonAncestorContainer r) q \<and> q \<noteq> commonAncestorContainer r) \<and>
       intersectsNode r (fst x) \<and> nonEmpty (clipFragment r x))
      = (intersectsNode r (fst x) \<and> nonEmpty (clipFragment r x))"
  proof -
    fix x assume "x \<in> set (textNodes d)"
    then have q: "nodeAt d (fst x) = Some (Text (snd x))"
      using textNodes_nodeAt(1)[of "fst x" "snd x" d] by simp
    from not_single_nonroot[OF vr nst q] have q0: "fst x \<noteq> []" .
    from intersects_text_node[OF vr q q0] under_commonAncestor[OF vr q nst]
    show "((case x of (q, s) \<Rightarrow> isPrefix (commonAncestorContainer r) q \<and> q \<noteq> commonAncestorContainer r) \<and>
       intersectsNode r (fst x) \<and> nonEmpty (clipFragment r x))
      = (intersectsNode r (fst x) \<and> nonEmpty (clipFragment r x))"
      by (auto simp: case_prod_unfold)
  qed
  then have "filter (\<lambda>x. intersectsNode r (fst x) \<and> nonEmpty (clipFragment r x))
      (filter (\<lambda>(q, s). isPrefix (commonAncestorContainer r) q \<and> q \<noteq> commonAncestorContainer r)
         (textNodes d)) =
     filter (\<lambda>x. intersectsNode r (fst x) \<and> nonEmpty (clipFragment r x)) (textNodes d)"
    unfolding filter_filter by (rule filter_cong[OF refl])
  then show ?thesis
    by (simp add: getTextNodesInRange_def loop_filter treeWalker_filter)
qed

lemma fragText_clip:
  "nodeAt d (fst x) = Some (Text (snd x)) \<Longrightarrow> fragText d (clipFragment r x) = clipText r x"
  by (simp add: fragText_def clipText_def clipFragment_def textData_def)

lemma getTextNodesInRange_text:
  assumes vr: "valid_range d r" and nst: "\<not> singleTextNode d r"
  shows "concat (map (fragText d) (getTextNodesInRange d r)) = range_toString d r"
proof -
  let ?P = "\<lambda>x. intersectsNode r (fst x) \<and> nonEmpty (clipFragment r x)"
  have tn: "\<And>x. x \<in> set (textNodes d) \<Longrightarrow> nodeAt d (fst x) = Some (Text (snd x))"
    using textNodes_nodeAt(1)[of _ _ d] by (metis prod.collapse)
  have "concat (map (fragText d) (getTextNodesInRange d r)) =
        concat (map (\<lambda>x. fragText d (clipFragment r x)) (filter ?P (textNodes d)))"
    by (simp add: getTextNodesInRange_filter[OF vr nst] comp_def)
  also have "\<dots> = concat (map (clipText r) (filter ?P (textNodes d)))"
    by (rule concat_map_cong) (simp add: fragText_clip tn)
  also have "\<dots> = concat (map (\<lambda>x. if ?P x then clipText r x else []) (textNodes d))"
    by (simp add: concat_map_if)
  also have "\<dots> = concat (map (cut r) (textNodes d))"
  proof (rule concat_map_cong)
    fix x assume x: "x \<in> set (textNodes d)"
    from clip_cut[OF vr tn[OF x] not_single_nonroot[OF vr nst tn[OF x]] nst]
    show "(if ?P x then clipText r x else []) = cut r x" unfolding prod.collapse .
  qed
  also have "\<dots> = range_toString d r" by (simp add: range_toString_cut[OF vr])
  finally show ?thesis .
qed

section \<open>Fragment coverage of the range splitter\<close>

lemma getTextNodesInRange_sorted:
  assumes vr: "valid_range d r" and nst: "\<not> singleTextNode d r"
  shows "sorted_wrt (<) (map node (getTextNodesInRange d r))"
proof -
  have "map node (getTextNodesInRange d r) =
        map fst (filter (\<lambda>x. intersectsNode r (fst x) \<and> nonEmpty (clipFragment r x)) (textNodes d))"
    by (simp add: getTextNodesInRange_filter[OF vr nst] comp_def clipFragment_def)
  also have "\<dots> = filter (\<lambda>q. \<exists>x\<in>set (textNodes d). fst x = q \<and> intersectsNode r q \<and>
                         nonEmpty (clipFragment r x)) (map fst (textNodes d))"
  proof -
    have "\<And>x. x \<in> set (textNodes d) \<Longrightarrow>
        (\<exists>y\<in>set (textNodes d). fst y = fst x \<and> intersectsNode r (fst x) \<and>
                         nonEmpty (clipFragment r y)) =
        (intersectsNode r (fst x) \<and> nonEmpty (clipFragment r x))"
    proof -
      fix x assume x: "x \<in> set (textNodes d)"
      have "\<And>y. y \<in> set (textNodes d) \<Longrightarrow> fst y = fst x \<Longrightarrow> y = x"
      proof -
        fix y assume y: "y \<in> set (textNodes d)" "fst y = fst x"
        then have "(fst x, snd y) \<in> set (textNodes d)" by (metis prod.collapse)
        moreover from x have "(fst x, snd x) \<in> set (textNodes d)" by simp
        ultimately have "snd y = snd x"
          using distinct_textNodes[of d] by (rule_tac eq_key_imp_eq_value)
        with y(2) show "y = x" by (simp add: prod_eq_iff)
      qed
      with x show "(\<exists>y\<in>set (textNodes d). fst y = fst x \<and> intersectsNode r (fst x) \<and>
                         nonEmpty (clipFragment r y)) =
        (intersectsNode r (fst x) \<and> nonEmpty (clipFragment r x))" by blast
    qed
    then show ?thesis unfolding filter_map comp_def
      by (intro arg_cong[where f="map fst"] filter_cong refl) simp
  qed
  finally show ?thesis using sorted_textNodes(1)[of d] by (simp add: sorted_wrt_filter)
qed

text \<open>
  C1, the input on which the source departs from the claim: a range that lies inside one
  text node, as every selection within one run of text does. In the paragraph
  \<open>ab<b>cd</b>ef\<close> the range from offset 0 to offset 2 of the text node \<open>ab\<close> is not
  collapsed, the text node intersects it and its clipped extent \<open>0..2\<close> is not empty, and
  the string of the range is \<open>ab\<close>; the claim requires the one tuple \<open>(ab, 0, 2)\<close>. The
  source roots its tree walker at the common ancestor container, here the text node itself;
  \<open>nextNode\<close> never yields the root, and the result is empty.
\<close>

theorem getTextNodesInRange_single_text_node_divergence:
  "valid_range doc_bold \<lparr>startContainer = [0], startOffset = 0, endContainer = [0], endOffset = 2\<rparr> \<and>
   \<not> collapsed \<lparr>startContainer = [0], startOffset = 0, endContainer = [0], endOffset = 2\<rparr> \<and>
   textData doc_bold [0] = Some ''ab'' \<and>
   intersectsNode \<lparr>startContainer = [0], startOffset = 0, endContainer = [0], endOffset = 2\<rparr> [0] \<and>
   nonEmpty (clipFragment
     \<lparr>startContainer = [0], startOffset = 0, endContainer = [0], endOffset = 2\<rparr> ([0], ''ab'')) \<and>
   range_toString doc_bold
     \<lparr>startContainer = [0], startOffset = 0, endContainer = [0], endOffset = 2\<rparr> = ''ab'' \<and>
   getTextNodesInRange doc_bold
     \<lparr>startContainer = [0], startOffset = 0, endContainer = [0], endOffset = 2\<rparr> = []"
  by (simp add: doc_bold_def valid_range_def valid_point_def collapsed_def textData_def
      intersectsNode_def getTextNodesInRange_def treeWalkerTextNodes_def
      commonAncestorContainer_def range_toString_def substring_def nonEmpty_def
      clipFragment_def)

text \<open>
  C1, on every other input: for every range whose start and end do not lie in one and the
  same text node, the splitter returns, in document order and each node once, exactly the
  text nodes of the document that intersect the range with a non-empty clipped extent
  (empty-length results are discarded). The offsets are clipped to the boundaries of the
  range in its own start and end container and are the full extent otherwise, every tuple
  is non-empty, and the concatenation of the text of the tuples is the string of the range.
\<close>

theorem getTextNodesInRange_coverage:
  assumes "valid_range d r" and "\<not> singleTextNode d r"
  shows "getTextNodesInRange d r =
           map (clipFragment r)
             (filter (\<lambda>x. intersectsNode r (fst x) \<and> nonEmpty (clipFragment r x)) (textNodes d)) \<and>
         sorted_wrt (<) (map node (getTextNodesInRange d r)) \<and>
         (\<forall>f\<in>set (getTextNodesInRange d r). nonEmpty f) \<and>
         concat (map (fragText d) (getTextNodesInRange d r)) = range_toString d r"
proof -
  note f = getTextNodesInRange_filter[OF assms]
  have "\<forall>f\<in>set (getTextNodesInRange d r). nonEmpty f"
    unfolding f by auto
  with f getTextNodesInRange_sorted[OF assms] getTextNodesInRange_text[OF assms]
  show ?thesis by blast
qed

theorem getTextNodesInRange_coverage_witness:
  "valid_range doc_bold \<lparr>startContainer = [0], startOffset = 1, endContainer = [2], endOffset = 1\<rparr> \<and>
   \<not> singleTextNode doc_bold
       \<lparr>startContainer = [0], startOffset = 1, endContainer = [2], endOffset = 1\<rparr> \<and>
   getTextNodesInRange doc_bold
     \<lparr>startContainer = [0], startOffset = 1, endContainer = [2], endOffset = 1\<rparr>
     = [\<lparr>node = [0], fragStart = 1, fragEnd = 2\<rparr>,
        \<lparr>node = [1, 0], fragStart = 0, fragEnd = 2\<rparr>,
        \<lparr>node = [2], fragStart = 0, fragEnd = 1\<rparr>] \<and>
   concat (map (fragText doc_bold) (getTextNodesInRange doc_bold
     \<lparr>startContainer = [0], startOffset = 1, endContainer = [2], endOffset = 1\<rparr>))
     = range_toString doc_bold
         \<lparr>startContainer = [0], startOffset = 1, endContainer = [2], endOffset = 1\<rparr>"
proof -
  let ?r = "\<lparr>startContainer = [0], startOffset = 1, endContainer = [2], endOffset = 1\<rparr>"
  have v: "valid_range doc_bold ?r"
    by (simp add: doc_bold_def valid_range_def valid_point_def)
  have n: "\<not> singleTextNode doc_bold ?r"
    by (simp add: singleTextNode_def)
  have g: "getTextNodesInRange doc_bold ?r
     = [\<lparr>node = [0], fragStart = 1, fragEnd = 2\<rparr>,
        \<lparr>node = [1, 0], fragStart = 0, fragEnd = 2\<rparr>,
        \<lparr>node = [2], fragStart = 0, fragEnd = 1\<rparr>]"
    by (simp add: doc_bold_def getTextNodesInRange_def treeWalkerTextNodes_def
        commonAncestorContainer_def intersectsNode_def)
  from getTextNodesInRange_coverage[OF v n] v n g show ?thesis by blast
qed

section \<open>Ranges, subtrees and global text offsets\<close>

lemma textNodes_subtree:
  "nodeAt d n = Some m \<Longrightarrow>
   filter (\<lambda>(q, s). isPrefix n q) (textNodes d) = map (\<lambda>(q, s). (n @ q, s)) (textNodes m)"
proof (induction n arbitrary: d)
  case Nil
  then show ?case by (simp add: case_prod_unfold)
next
  case (Cons i n)
  from Cons.prems obtain t a cs where d: "d = Elem t a cs" and i: "i < length cs"
    and m: "nodeAt (cs ! i) n = Some m"
    by (cases d) (auto split: if_splits)
  have pred: "(\<lambda>(q, s). isPrefix (i # n) q) =
              (\<lambda>(q, s::string). \<exists>r. q = i # r \<and> isPrefix n r)"
    by (rule ext) (auto simp: isPrefix_iff)
  have "filter (\<lambda>(q, s). isPrefix (i # n) q) (textNodes d) =
        map (\<lambda>(q, s). (i # q, s)) (filter (\<lambda>(q, s). isPrefix n q) (textNodes (cs ! i)))"
    unfolding pred using d i by (simp add: filter_textNodes_children[where P="isPrefix n"])
  also have "\<dots> = map (\<lambda>(q, s). (i # q, s)) (map (\<lambda>(q, s). (n @ q, s)) (textNodes m))"
    by (simp add: Cons.IH[OF m])
  finally show ?case by (simp add: comp_def case_prod_unfold)
qed

lemma common_prefix_less [simp]: "(n::path) @ a < n @ b \<longleftrightarrow> a < b"
  by (induction n) auto

lemma position_shift [simp]: "position (n @ p) k (n @ q) l = position p k q l"
  by (induction n) auto

lemma valid_point_shift:
  "nodeAt d n = Some m \<Longrightarrow> valid_point d (n @ p) k = valid_point m p k"
  by (simp add: valid_point_def nodeAt_append)

lemma valid_range_shift:
  "nodeAt d n = Some m \<Longrightarrow> valid_range d (shiftRange n r) = valid_range m r"
  by (simp add: valid_range_def shiftRange_def valid_point_shift)

lemma charsBefore_shift:
  "charsBefore (n @ p) k (n @ q, s) = charsBefore p k (q, s)"
  by (simp add: charsBefore_def)

lemma cut_shift: "cut (shiftRange n r) (n @ q, s) = cut r (q, s)"
  by (simp add: cut_def shiftRange_def charsBefore_shift)

lemma cut_outside_subtree:
  assumes vr: "valid_range d (shiftRange n r)" and q: "nodeAt d q = Some (Text s)"
    and out: "\<not> isPrefix n q"
  shows "cut (shiftRange n r) (q, s) = []"
proof -
  let ?r = "shiftRange n r"
  have ps: "isPrefix n (startContainer ?r)" and pe: "isPrefix n (endContainer ?r)"
    by (simp_all add: shiftRange_def)
  from out ps pe have ne: "q \<noteq> startContainer ?r" "q \<noteq> endContainer ?r" by auto
  show ?thesis
  proof (cases "q < startContainer ?r @ [startOffset ?r]")
    case True
    with ne show ?thesis by (simp add: cut_def charsBefore_def)
  next
    case False
    then have lo: "startContainer ?r @ [startOffset ?r] \<le> q" by simp
    have "\<not> q < endContainer ?r @ [endOffset ?r]"
    proof
      assume "q < endContainer ?r @ [endOffset ?r]"
      from interval_prefix[OF isPrefix_snoc[OF ps] isPrefix_snoc[OF pe] lo this] out
      show False by simp
    qed
    with ne show ?thesis by (simp add: cut_def charsBefore_def)
  qed
qed

lemma concat_map_filter_nil:
  "(\<And>x. x \<in> set xs \<Longrightarrow> \<not> P x \<Longrightarrow> f x = []) \<Longrightarrow>
   concat (map f (filter P xs)) = concat (map f xs)"
  by (induction xs) auto

lemma range_toString_shift:
  assumes m: "nodeAt d n = Some m" and vr: "valid_range m r"
  shows "range_toString d (shiftRange n r) = range_toString m r"
proof -
  have vd: "valid_range d (shiftRange n r)" using vr by (simp add: valid_range_shift[OF m])
  have tn: "\<And>x. x \<in> set (textNodes d) \<Longrightarrow> nodeAt d (fst x) = Some (Text (snd x))"
    using textNodes_nodeAt(1)[of _ _ d] by (metis prod.collapse)
  have "range_toString d (shiftRange n r) = concat (map (cut (shiftRange n r)) (textNodes d))"
    by (rule range_toString_cut[OF vd])
  also have "\<dots> = concat (map (cut (shiftRange n r))
                       (filter (\<lambda>(q, s). isPrefix n q) (textNodes d)))"
  proof (rule concat_map_filter_nil[symmetric])
    fix x assume x: "x \<in> set (textNodes d)" and "\<not> (case x of (q, s) \<Rightarrow> isPrefix n q)"
    then have "\<not> isPrefix n (fst x)" by (simp add: case_prod_unfold)
    from cut_outside_subtree[OF vd tn[OF x] this] show "cut (shiftRange n r) x = []" by simp
  qed
  also have "\<dots> = concat (map (cut r) (textNodes m))"
    unfolding textNodes_subtree[OF m]
    by (simp add: comp_def case_prod_unfold cut_shift)
  also have "\<dots> = range_toString m r" by (simp add: range_toString_cut[OF vr])
  finally show ?thesis .
qed


lemma take_stair:
  assumes "stair g T" and "\<And>x. x \<in> set T \<Longrightarrow> g x \<le> length (snd x)"
  shows "concat (map (\<lambda>x. take (g x) (snd x)) T) = take (sum_list (map g T)) (concat (map snd T))"
  using assms
proof (induction T)
  case Nil
  show ?case by simp
next
  case (Cons x xs)
  from Cons.prems have st: "stair g xs" and le: "\<And>y. y \<in> set xs \<Longrightarrow> g y \<le> length (snd y)"
    and lx: "g x \<le> length (snd x)" by auto
  note IH = Cons.IH[OF st le]
  show ?case
  proof (cases "g x = length (snd x)")
    case True
    with IH show ?thesis by simp
  next
    case False
    with Cons.prems(1) have z: "list_all (\<lambda>y. g y = 0) xs" by simp
    then have sz: "sum_list (map g xs) = 0" by (induction xs) auto
    from z have cz: "concat (map (\<lambda>x. take (g x) (snd x)) xs) = []"
      by (induction xs) auto
    show ?thesis
      by (simp only: list.map concat.simps sum_list.Cons sz cz) (simp add: lx)
  qed
qed

lemma drop_take_stair:
  assumes "stair f T" and "stair g T"
    and "\<And>x. x \<in> set T \<Longrightarrow> f x \<le> g x \<and> g x \<le> length (snd x)"
  shows "concat (map (\<lambda>x. drop (f x) (take (g x) (snd x))) T) =
         drop (sum_list (map f T)) (take (sum_list (map g T)) (concat (map snd T)))"
  using assms
proof (induction T)
  case Nil
  show ?case by simp
next
  case (Cons x xs)
  from Cons.prems have sf: "stair f xs" and sg: "stair g xs"
    and le: "\<And>y. y \<in> set xs \<Longrightarrow> f y \<le> g y \<and> g y \<le> length (snd y)"
    and lx: "f x \<le> g x" "g x \<le> length (snd x)" by auto
  note IH = Cons.IH[OF sf sg le]
  have tk: "concat (map (\<lambda>x. take (g x) (snd x)) xs) =
            take (sum_list (map g xs)) (concat (map snd xs))"
    using take_stair[OF sg] le by simp
  show ?case
  proof (cases "f x = length (snd x)")
    case True
    with lx have "g x = length (snd x)" by simp
    with True IH show ?thesis by simp
  next
    case False
    with Cons.prems(1) have z: "list_all (\<lambda>y. f y = 0) xs" by simp
    then have sz: "sum_list (map f xs) = 0" by (induction xs) auto
    from z have dz: "concat (map (\<lambda>x. drop (f x) (take (g x) (snd x))) xs) =
                     concat (map (\<lambda>x. take (g x) (snd x)) xs)"
      by (induction xs) auto
    show ?thesis
    proof (cases "g x = length (snd x)")
      case True
      from lx have fl: "f x \<le> length (snd x)" by simp
      show ?thesis
        by (simp only: list.map concat.simps sum_list.Cons sz dz tk True) (simp add: fl)
    next
      case gf: False
      with Cons.prems(2) have zg: "list_all (\<lambda>y. g y = 0) xs" by simp
      then have sgz: "sum_list (map g xs) = 0" by (induction xs) auto
      from zg have cz: "concat (map (\<lambda>x. take (g x) (snd x)) xs) = []"
        by (induction xs) auto
      show ?thesis
        by (simp only: list.map concat.simps sum_list.Cons sz dz sgz cz) (simp add: lx)
    qed
  qed
qed

lemma charsBefore_le: "charsBefore p k x \<le> length (snd x)"
  by (simp add: charsBefore_def)

lemma stair_charsBefore:
  assumes sorted: "sorted_wrt (<) (map fst T)"
    and tn: "\<And>x. x \<in> set T \<Longrightarrow> nodeAt d (fst x) = Some (Text (snd x))"
    and p: "nodeAt d p = Some n"
  shows "stair (charsBefore p k) T"
  using sorted tn
proof (induction T)
  case Nil
  show ?case by simp
next
  case (Cons x xs)
  from Cons.prems have sx: "sorted_wrt (<) (map fst xs)"
    and lt: "\<forall>y\<in>set xs. fst x < fst y"
    and tx: "nodeAt d (fst x) = Some (Text (snd x))"
    and ty: "\<And>y. y \<in> set xs \<Longrightarrow> nodeAt d (fst y) = Some (Text (snd y))" by auto
  have "charsBefore p k x = length (snd x) \<or> list_all (\<lambda>y. charsBefore p k y = 0) xs"
  proof (cases "list_all (\<lambda>y. charsBefore p k y = 0) xs")
    case True
    then show ?thesis by simp
  next
    case False
    then obtain y where y: "y \<in> set xs" and nz: "charsBefore p k y \<noteq> 0"
      by (auto simp: list_all_iff)
    from y lt have xy: "fst x < fst y" by auto
    have "fst x < p @ [k] \<and> fst x \<noteq> p"
    proof (cases "fst y = p")
      case True
      with xy have "fst x < p" by simp
      then show ?thesis by (auto intro: less_trans[OF _ less_snoc])
    next
      case False
      with nz have yb: "fst y < p @ [k]" by (auto simp: charsBefore_def split: if_splits)
      with xy have xb: "fst x < p @ [k]" by (rule less_trans)
      have "fst x \<noteq> p"
      proof
        assume e: "fst x = p"
        with xy yb have "isPrefix p (fst y)" by (auto intro: between_prefix)
        with text_leaf[OF tx ty[OF y]] e False show False by auto
      qed
      with xb show ?thesis by simp
    qed
    then show ?thesis by (simp add: charsBefore_def)
  qed
  with Cons.IH[OF sx ty] show ?case by simp
qed

lemma charsBefore_mono:
  assumes vr: "valid_range d r" and q: "nodeAt d q = Some (Text s)"
  shows "charsBefore (startContainer r) (startOffset r) (q, s)
         \<le> charsBefore (endContainer r) (endOffset r) (q, s)"
proof -
  obtain ns ne where ns: "nodeAt d (startContainer r) = Some ns"
    and ne: "nodeAt d (endContainer r) = Some ne"
    using valid_point_node[OF valid_range_points(1)[OF vr]]
      valid_point_node[OF valid_range_points(2)[OF vr]] by blast
  note ord = valid_range_order[OF vr]
  show ?thesis
  proof (cases "q = startContainer r")
    case qs: True
    show ?thesis
    proof (cases "q = endContainer r")
      case True
      with qs ord show ?thesis by (simp add: charsBefore_def)
    next
      case False
      have "q < q @ [startOffset r]" by simp
      with ord qs have "q < endContainer r @ [endOffset r]"
        by (metis less_trans not_less_iff_gr_or_eq)
      with False show ?thesis by (simp add: charsBefore_def)
    qed
  next
    case nqs: False
    show ?thesis
    proof (cases "q < startContainer r @ [startOffset r]")
      case False
      with nqs show ?thesis by (simp add: charsBefore_def)
    next
      case True
      from key_side_before[OF q ns nqs True, of "[endOffset r]"] ord
      have ne': "q \<noteq> endContainer r" by auto
      from True ord have "q < endContainer r @ [endOffset r]"
        by (metis less_trans not_less_iff_gr_or_eq)
      with ne' nqs True show ?thesis by (simp add: charsBefore_def)
    qed
  qed
qed

lemma range_toString_global:
  assumes vr: "valid_range d r"
  shows "range_toString d r =
         drop (globalOffset d (startContainer r) (startOffset r))
           (take (globalOffset d (endContainer r) (endOffset r)) (textContent d))"
proof -
  let ?T = "textNodes d"
  have tn: "\<And>x. x \<in> set ?T \<Longrightarrow> nodeAt d (fst x) = Some (Text (snd x))"
    using textNodes_nodeAt(1)[of _ _ d] by (metis prod.collapse)
  obtain ns ne where ns: "nodeAt d (startContainer r) = Some ns"
    and ne: "nodeAt d (endContainer r) = Some ne"
    using valid_point_node[OF valid_range_points(1)[OF vr]]
      valid_point_node[OF valid_range_points(2)[OF vr]] by blast
  have sf: "stair (charsBefore (startContainer r) (startOffset r)) ?T"
    by (rule stair_charsBefore[OF sorted_textNodes(1) tn ns])
  have sg: "stair (charsBefore (endContainer r) (endOffset r)) ?T"
    by (rule stair_charsBefore[OF sorted_textNodes(1) tn ne])
  have le: "\<And>x. x \<in> set ?T \<Longrightarrow>
      charsBefore (startContainer r) (startOffset r) x \<le> charsBefore (endContainer r) (endOffset r) x
      \<and> charsBefore (endContainer r) (endOffset r) x \<le> length (snd x)"
    using charsBefore_mono[OF vr tn] charsBefore_le by (metis prod.collapse)
  have "range_toString d r = concat (map (cut r) ?T)" by (rule range_toString_cut[OF vr])
  also have "\<dots> = concat (map (\<lambda>x. drop (charsBefore (startContainer r) (startOffset r) x)
                        (take (charsBefore (endContainer r) (endOffset r) x) (snd x))) ?T)"
    by (simp add: cut_def[abs_def])
  also note drop_take_stair[OF sf sg le]
  finally show ?thesis by (simp add: globalOffset_def concat_textNodes)
qed


lemma findIn_split:
  "findIn a c T = Some (q, k) \<Longrightarrow>
   \<exists>A s B. T = A @ (q, s) # B \<and> a = c + textLen A + k \<and> k \<le> length s"
proof (induction T arbitrary: c)
  case Nil
  then show ?case by simp
next
  case (Cons x T)
  obtain p s where x: "x = (p, s)" by (cases x)
  show ?case
  proof (cases "c \<le> a \<and> a \<le> c + length s")
    case True
    with Cons.prems x have "q = p" "k = a - c" by auto
    with True x have "x # T = [] @ (q, s) # T \<and> a = c + textLen [] + k \<and> k \<le> length s"
      by auto
    then show ?thesis by blast
  next
    case False
    with Cons.prems x have "findIn a (c + length s) T = Some (q, k)" by simp
    from Cons.IH[OF this] obtain A s' B where
      "T = A @ (q, s') # B" "a = c + length s + textLen A + k" "k \<le> length s'" by blast
    with x have "x # T = (x # A) @ (q, s') # B \<and> a = c + textLen (x # A) + k \<and> k \<le> length s'"
      by simp
    then show ?thesis by blast
  qed
qed

lemma findIn_mono:
  "findIn a c T = Some (q1, k1) \<Longrightarrow> findIn b c T = Some (q2, k2) \<Longrightarrow> a \<le> b \<Longrightarrow>
   \<exists>A s1 B. T = A @ (q1, s1) # B \<and>
     ((q2 = q1 \<and> k1 \<le> k2) \<or> (\<exists>s2. (q2, s2) \<in> set B))"
proof (induction T arbitrary: c)
  case Nil
  then show ?case by simp
next
  case (Cons x T)
  obtain p s where x: "x = (p, s)" by (cases x)
  show ?case
  proof (cases "c \<le> a \<and> a \<le> c + length s")
    case True
    with Cons.prems x have q1: "q1 = p" "k1 = a - c" by auto
    show ?thesis
    proof (cases "c \<le> b \<and> b \<le> c + length s")
      case b: True
      with Cons.prems x have "q2 = p" "k2 = b - c" by auto
      with q1 Cons.prems(3) x have "x # T = [] @ (q1, s) # T \<and> (q2 = q1 \<and> k1 \<le> k2)"
        by auto
      then show ?thesis by blast
    next
      case False
      with Cons.prems x have "findIn b (c + length s) T = Some (q2, k2)" by simp
      from findIn_split[OF this] obtain A' s2 B' where "T = A' @ (q2, s2) # B'" by blast
      then have "(q2, s2) \<in> set T" by simp
      with q1 x have "x # T = [] @ (q1, s) # T \<and> (\<exists>s2. (q2, s2) \<in> set T)" by auto
      then show ?thesis by blast
    qed
  next
    case False
    with Cons.prems x have fa: "findIn a (c + length s) T = Some (q1, k1)" by simp
    from findIn_lower[OF fa] Cons.prems(3) have "c + length s \<le> b" by simp
    have "\<not> (c \<le> b \<and> b \<le> c + length s)"
    proof
      assume "c \<le> b \<and> b \<le> c + length s"
      with \<open>c + length s \<le> b\<close> Cons.prems(3) findIn_lower[OF fa] have "a = c + length s" by simp
      with False show False by simp
    qed
    with Cons.prems x have fb: "findIn b (c + length s) T = Some (q2, k2)" by simp
    from Cons.IH[OF fa fb Cons.prems(3)] obtain A s1 B where
      "T = A @ (q1, s1) # B" "(q2 = q1 \<and> k1 \<le> k2) \<or> (\<exists>s2. (q2, s2) \<in> set B)" by blast
    then have "x # T = (x # A) @ (q1, s1) # B \<and>
      ((q2 = q1 \<and> k1 \<le> k2) \<or> (\<exists>s2. (q2, s2) \<in> set B))" by simp
    then show ?thesis by blast
  qed
qed

lemma findIn_exists:
  "T \<noteq> [] \<Longrightarrow> c \<le> a \<Longrightarrow> a \<le> c + textLen T \<Longrightarrow> \<exists>r. findIn a c T = Some r"
proof (induction T arbitrary: c)
  case Nil
  then show ?case by simp
next
  case (Cons x T)
  obtain p s where x: "x = (p, s)" by (cases x)
  show ?case
  proof (cases "a \<le> c + length s")
    case True
    with Cons.prems x show ?thesis by simp
  next
    case False
    then have lo: "c + length s \<le> a" by simp
    from False Cons.prems x have "T \<noteq> []" by (cases T) auto
    from Cons.IH[OF this lo] Cons.prems x False show ?thesis by (simp add: add.assoc)
  qed
qed

lemma sum_charsBefore_full:
  "(\<And>x. x \<in> set A \<Longrightarrow> charsBefore p k x = length (snd x)) \<Longrightarrow>
   sum_list (map (charsBefore p k) A) = textLen A"
  by (induction A) (auto simp: textLen_def)

lemma sum_charsBefore_zero:
  "(\<And>x. x \<in> set B \<Longrightarrow> charsBefore p k x = 0) \<Longrightarrow>
   sum_list (map (charsBefore p k) B) = 0"
  by (induction B) auto

lemma globalOffset_split:
  assumes T: "textNodes d = A @ (q, s) # B" and k: "k \<le> length s"
  shows "globalOffset d q k = textLen A + k"
proof -
  have tn: "\<And>x. x \<in> set (textNodes d) \<Longrightarrow> nodeAt d (fst x) = Some (Text (snd x))"
    using textNodes_nodeAt(1)[of _ _ d] by (metis prod.collapse)
  have sorted: "sorted_wrt (<) (map fst (A @ (q, s) # B))"
    using sorted_textNodes(1)[of d] T by simp
  then have A: "\<And>x. x \<in> set A \<Longrightarrow> fst x < q" and B: "\<And>x. x \<in> set B \<Longrightarrow> q < fst x"
    by (auto simp: sorted_wrt_append)
  have q: "nodeAt d q = Some (Text s)" using tn[of "(q, s)"] T by simp
  have a: "\<And>x. x \<in> set A \<Longrightarrow> charsBefore q k x = length (snd x)"
  proof -
    fix x assume "x \<in> set A"
    from A[OF this] have "fst x < q" .
    moreover have "q < q @ [k]" by simp
    ultimately have "fst x < q @ [k]" "fst x \<noteq> q" using less_trans by blast+
    then show "charsBefore q k x = length (snd x)" by (simp add: charsBefore_def)
  qed
  have b: "\<And>x. x \<in> set B \<Longrightarrow> charsBefore q k x = 0"
  proof -
    fix x assume x: "x \<in> set B"
    from B[OF x] have lt: "q < fst x" .
    have "\<not> fst x < q @ [k]"
    proof
      assume "fst x < q @ [k]"
      from between_prefix[OF lt this] text_leaf[OF q tn[of x]] x T lt show False by auto
    qed
    with lt show "charsBefore q k x = 0" by (auto simp: charsBefore_def)
  qed
  show ?thesis
    unfolding globalOffset_def T
    using sum_charsBefore_full[of A q k, OF a] sum_charsBefore_zero[of B q k, OF b] k
    by (simp add: charsBefore_def)
qed

lemma globalOffset_find:
  "findTextNodeAtOffset d a = Some (q, k) \<Longrightarrow> globalOffset d q k = a"
  by (auto simp: findTextNodeAtOffset_findIn dest!: findIn_split intro: globalOffset_split)

lemma find_text_node:
  "findTextNodeAtOffset d a = Some (q, k) \<Longrightarrow>
   \<exists>s. nodeAt d q = Some (Text s) \<and> k \<le> length s"
proof -
  assume "findTextNodeAtOffset d a = Some (q, k)"
  then obtain A s B where "textNodes d = A @ (q, s) # B" "k \<le> length s"
    by (auto simp: findTextNodeAtOffset_findIn dest!: findIn_split)
  moreover then have "(q, s) \<in> set (textNodes d)" by simp
  then have "nodeAt d q = Some (Text s)" by (simp only: textNodes_nodeAt(1))
  ultimately show ?thesis by blast
qed

lemma find_order:
  assumes a: "findTextNodeAtOffset d a = Some (q1, k1)"
    and b: "findTextNodeAtOffset d b = Some (q2, k2)" and le: "a \<le> b"
  shows "\<not> q2 @ [k2] < q1 @ [k1]"
proof -
  from findIn_mono[OF a[unfolded findTextNodeAtOffset_findIn] b[unfolded findTextNodeAtOffset_findIn] le]
  obtain A s1 B where T: "textNodes d = A @ (q1, s1) # B"
    and c: "(q2 = q1 \<and> k1 \<le> k2) \<or> (\<exists>s2. (q2, s2) \<in> set B)" by blast
  from c show ?thesis
  proof
    assume "q2 = q1 \<and> k1 \<le> k2"
    then show ?thesis by simp
  next
    assume "\<exists>s2. (q2, s2) \<in> set B"
    then obtain s2 where s2: "(q2, s2) \<in> set B" by blast
    have "sorted_wrt (<) (map fst (A @ (q1, s1) # B))"
      using sorted_textNodes(1)[of d] T by simp
    with s2 have lt: "q1 < q2" by (auto simp: sorted_wrt_append)
    have q1: "nodeAt d q1 = Some (Text s1)" and q2: "nodeAt d q2 = Some (Text s2)"
      using T s2 textNodes_nodeAt(1)[of _ _ d] by auto
    have "\<not> isPrefix q1 q2" using text_leaf[OF q1 q2] lt by auto
    from less_append_diverge[OF lt this, of "[k1]" "[k2]"] show ?thesis by (simp add: not_less_iff_gr_or_eq)
  qed
qed

lemma restored_range:
  assumes a: "findTextNodeAtOffset d a = Some (q1, k1)"
    and b: "findTextNodeAtOffset d b = Some (q2, k2)" and le: "a \<le> b"
  shows "valid_range d \<lparr>startContainer = q1, startOffset = k1, endContainer = q2, endOffset = k2\<rparr>"
    and "range_toString d \<lparr>startContainer = q1, startOffset = k1, endContainer = q2, endOffset = k2\<rparr>
         = drop a (take b (textContent d))"
proof -
  let ?r = "\<lparr>startContainer = q1, startOffset = k1, endContainer = q2, endOffset = k2\<rparr>"
  from find_text_node[OF a] find_text_node[OF b] find_order[OF a b le]
  show v: "valid_range d ?r"
    by (auto simp: valid_range_def valid_point_def position_lex)
  from range_toString_global[OF v] globalOffset_find[OF a] globalOffset_find[OF b]
  show "range_toString d ?r = drop a (take b (textContent d))" by simp
qed

lemma indexOf_Some:
  "indexOf s pat = Some i \<Longrightarrow> take (length pat) (drop i s) = pat \<and> i + length pat \<le> length s"
proof (induction s arbitrary: i)
  case Nil
  then show ?case by (simp split: if_splits)
next
  case (Cons c s)
  show ?case
  proof (cases "take (length pat) (c # s) = pat")
    case True
    with Cons.prems have "i = 0" by simp
    moreover have "length pat \<le> length (c # s)"
      using arg_cong[OF True, of length] by simp
    ultimately show ?thesis using True by simp
  next
    case False
    with Cons.prems obtain j where j: "indexOf s pat = Some j" "i = Suc j" by auto
    from Cons.IH[OF j(1)] j(2) show ?thesis by simp
  qed
qed

lemma indexOf_occurs:
  "take (length pat) (drop i s) = pat \<Longrightarrow> i \<le> length s \<Longrightarrow> indexOf s pat \<noteq> None"
proof (induction s arbitrary: i)
  case Nil
  then show ?case by auto
next
  case (Cons c s)
  show ?case
  proof (cases i)
    case 0
    with Cons.prems show ?thesis by simp
  next
    case (Suc j)
    with Cons.prems have "indexOf s pat \<noteq> None" by (intro Cons.IH[of j]) auto
    then show ?thesis by auto
  qed
qed

lemma indexOf_slice:
  "indexOf s pat = Some i \<Longrightarrow> drop i (take (i + length pat) s) = pat"
  using indexOf_Some[of s pat i] by (simp add: drop_take)


section \<open>Splicing, counting and relocating\<close>

lemma matching_children_length:
  "length (matching_children P cs i) = sum_list (map (\<lambda>c. length (matching P c)) cs)"
  by (induction cs arbitrary: i) auto

lemma matching_length_Elem:
  "length (matching P (Elem t a cs)) =
     (if P t a then 1 else 0) + sum_list (map (\<lambda>c. length (matching P c)) cs)"
  by (simp add: matching_children_length)

lemma sum_list_update_eq:
  "i < length cs \<Longrightarrow>
   sum_list (map f (cs[i := x])) + f (cs ! i) = sum_list (map f cs) + (f x :: nat)"
  by (induction cs arbitrary: i) (auto split: nat.splits)

lemma sum_list_splice_eq:
  "i < length cs \<Longrightarrow>
   sum_list (map f (take i cs @ ns @ drop (Suc i) cs)) + f (cs ! i) =
   sum_list (map f cs) + (sum_list (map f ns) :: nat)"
proof -
  assume i: "i < length cs"
  then have "cs = take i cs @ cs ! i # drop (Suc i) cs" by (simp add: id_take_nth_drop)
  then have "sum_list (map f cs) =
      sum_list (map f (take i cs)) + f (cs ! i) + sum_list (map f (drop (Suc i) cs))"
    by (metis (no_types) add.assoc list.simps(9) map_append sum_list.Cons sum_list_append)
  then show ?thesis by simp
qed

lemma matching_splice_length:
  "nodeAt d p = Some old \<Longrightarrow> p \<noteq> [] \<Longrightarrow>
   length (matching P (spliceAt d p ns)) + length (matching P old) =
   length (matching P d) + sum_list (map (\<lambda>n. length (matching P n)) ns)"
proof (induction d p ns rule: spliceAt.induct)
  case (1 t a cs i ns)
  then have i: "i < length cs" and old: "old = cs ! i" by (auto split: if_splits)
  show ?case
    using sum_list_splice_eq[OF i, of "\<lambda>c. length (matching P c)" ns] i old
    by (simp add: matching_children_length)
next
  case (2 t a cs i j p ns)
  then have i: "i < length cs" and old: "nodeAt (cs ! i) (j # p) = Some old"
    by (auto split: if_splits)
  from 2(1)[OF i old] have
    "length (matching P (spliceAt (cs ! i) (j # p) ns)) + length (matching P old) =
     length (matching P (cs ! i)) + sum_list (map (\<lambda>n. length (matching P n)) ns)" by simp
  with sum_list_update_eq[OF i, of "\<lambda>c. length (matching P c)" "spliceAt (cs ! i) (j # p) ns"] i
  show ?case by (simp add: matching_children_length)
qed (auto dest: nodeAt_Text_root)

lemma textContent_splice:
  "nodeAt d p = Some old \<Longrightarrow> p \<noteq> [] \<Longrightarrow> concat (map textContent ns) = textContent old \<Longrightarrow>
   textContent (spliceAt d p ns) = textContent d"
proof (induction d p ns rule: spliceAt.induct)
  case (1 t a cs i ns)
  then have i: "i < length cs" and old: "old = cs ! i" by (auto split: if_splits)
  have "cs = take i cs @ cs ! i # drop (Suc i) cs" using i by (simp add: id_take_nth_drop)
  then have "concat (map textContent cs) =
     concat (map textContent (take i cs)) @ textContent (cs ! i) @
     concat (map textContent (drop (Suc i) cs))"
    by (metis concat.simps(2) concat_append list.simps(9) map_append)
  with 1 i old show ?case by simp
next
  case (2 t a cs i j p ns)
  then have i: "i < length cs" and old: "nodeAt (cs ! i) (j # p) = Some old"
    by (auto split: if_splits)
  from 2(1)[OF i old] 2(4) have "textContent (spliceAt (cs ! i) (j # p) ns) = textContent (cs ! i)"
    by simp
  then have "cs[i := spliceAt (cs ! i) (j # p) ns] = cs[i := spliceAt (cs ! i) (j # p) ns]
      \<and> map textContent (cs[i := spliceAt (cs ! i) (j # p) ns]) = map textContent cs"
    using i by (simp add: map_update list_update_same_conv)
  with i show ?case by simp
qed (auto dest: nodeAt_Text_root)

lemma relocate_nodeAt:
  "nodeAt d p = Some (Text s) \<Longrightarrow> nodeAt d q = Some n \<Longrightarrow> \<not> isPrefix q p \<Longrightarrow>
   nodeAt (spliceAt d p [x, y, z]) (relocate p q) = Some n"
proof (induction p q arbitrary: d rule: relocate.induct)
  case (1 j i q)
  then obtain t a cs where d: "d = Elem t a cs" by (cases d) auto
  with 1 have j: "j < length cs" and cj: "cs ! j = Text s" by (auto split: if_splits)
  from 1 d have i: "i < length cs" and n: "nodeAt (cs ! i) q = Some n" by (auto split: if_splits)
  have ij: "i \<noteq> j"
  proof
    assume "i = j"
    with n cj have "q = []" using nodeAt_Text_root by auto
    with \<open>i = j\<close> 1(3) show False by simp
  qed
  show ?case
  proof (cases "j < i")
    case True
    then have "(take j cs @ [x, y, z] @ drop (Suc j) cs) ! (i + 2) = cs ! i"
      using i j by (simp add: nth_append min_def)
    with True d i j n show ?thesis by simp
  next
    case False
    with ij have "i < j" by simp
    then have "(take j cs @ [x, y, z] @ drop (Suc j) cs) ! i = cs ! i"
      using i j by (simp add: nth_append)
    with False d i j n show ?thesis by simp
  qed
next
  case (2 j k p i q)
  then obtain t a cs where d: "d = Elem t a cs" by (cases d) auto
  with 2 have j: "j < length cs" and pj: "nodeAt (cs ! j) (k # p) = Some (Text s)"
    by (auto split: if_splits)
  from 2 d have i: "i < length cs" and n: "nodeAt (cs ! i) q = Some n" by (auto split: if_splits)
  show ?case
  proof (cases "i = j")
    case True
    with 2(4) have "\<not> isPrefix q (k # p)" by simp
    from 2(1)[OF True pj _ this] n True have
      "nodeAt (spliceAt (cs ! j) (k # p) [x, y, z]) (relocate (k # p) q) = Some n" by simp
    with True d j show ?thesis by simp
  next
    case False
    with d i j n show ?thesis by simp
  qed
qed (auto dest: nodeAt_Text_root)

lemma relocate_Nil [simp]: "relocate p q = [] \<longleftrightarrow> q = []"
  by (induction p q rule: relocate.induct) auto

lemma relocate_inj: "relocate p q = relocate p q' \<Longrightarrow> q = q'"
proof (induction p q arbitrary: q' rule: relocate.induct)
  case (1 j i q)
  then show ?case by (cases q') (auto split: if_splits)
next
  case (2 j k p i q)
  then show ?case by (cases q') (auto split: if_splits)
qed (auto dest: sym)

lemma firstOf_None [simp]: "firstOf ps = None \<longleftrightarrow> ps = []"
  by (cases ps) (auto simp: firstOf_def)

lemma fragOk_text:
  "fragOk d f \<Longrightarrow> \<exists>s. nodeAt d (node f) = Some (Text s) \<and> fragEnd f \<le> length s"
  by (auto simp: fragOk_def split: option.splits node.splits)

lemma wrapFragment_ok:
  assumes "fragOk d f" and "wrapFault pf k = None"
  shows "\<exists>s. nodeAt d (node f) = Some (Text s) \<and>
     wrapFragment pf d ty gid k f =
       Returns (surroundText d (node f) s (fragStart f) (fragEnd f) ty gid)"
  using assms by (auto simp: fragOk_def wrapFragment_def split: option.splits node.splits)

lemma wrapFragment_fault:
  assumes "fragOk d f" and "wrapFault pf k = Some e"
  shows "wrapFragment pf d ty gid k f = Throws e"
  using assms by (auto simp: fragOk_def wrapFragment_def split: option.splits node.splits)

lemma fragsOk_Cons: "fragsOk d (f # fs) \<Longrightarrow> fragOk d f \<and> fragsOk d fs"
  by (simp add: fragsOk_def)

lemma fragsOk_step:
  assumes ok: "fragsOk d (f # fs)" and s: "nodeAt d (node f) = Some (Text s)"
  shows "fragsOk (spliceAt d (node f) [x, y, z]) (map (relocateFragment (node f)) fs)"
proof -
  have d: "distinct (map node (map (relocateFragment (node f)) fs))"
  proof -
    have e: "map node (map (relocateFragment (node f)) fs) = map (relocate (node f)) (map node fs)"
      by (simp add: relocateFragment_def comp_def)
    have i: "inj_on (relocate (node f)) (set (map node fs))"
      by (rule inj_onI) (rule relocate_inj)
    have "distinct (map node fs)" using ok by (simp add: fragsOk_def)
    then have "distinct (map (relocate (node f)) (map node fs))"
      using i by (subst distinct_map) blast
    then show ?thesis by (simp only: e)
  qed
  have "\<And>g. g \<in> set fs \<Longrightarrow> fragOk (spliceAt d (node f) [x, y, z]) (relocateFragment (node f) g)"
  proof -
    fix g assume g: "g \<in> set fs"
    with ok have gok: "fragOk d g" by (simp add: fragsOk_def list_all_iff)
    from ok have "node f \<notin> set (map node fs)" by (simp add: fragsOk_def)
    moreover have "node g \<in> set (map node fs)" using g by simp
    ultimately have ne: "node g \<noteq> node f" by metis
    from fragOk_text[OF gok] obtain u where u: "nodeAt d (node g) = Some (Text u)"
      and le: "fragEnd g \<le> length u" by blast
    have "\<not> isPrefix (node g) (node f)" using text_leaf[OF u s] ne by auto
    from relocate_nodeAt[OF s u this]
    have "nodeAt (spliceAt d (node f) [x, y, z]) (relocate (node f) (node g)) = Some (Text u)" .
    with gok le show "fragOk (spliceAt d (node f) [x, y, z]) (relocateFragment (node f) g)"
      by (simp add: fragOk_def relocateFragment_def)
  qed
  with d show ?thesis by (simp add: fragsOk_def list_all_iff)
qed

lemma wrapped_Suc:
  "wrapped pf k (Suc n) = (if wrapFault pf k = None then 1 else 0) + wrapped pf (Suc k) n"
proof -
  have "[k..<k + Suc n] = k # [Suc k..<Suc k + n]"
    using upt_conv_Cons[of k "k + Suc n"] by simp
  then show ?thesis by (simp add: wrapped_def)
qed

lemma wrapped_0 [simp]: "wrapped pf k 0 = 0"
  by (simp add: wrapped_def)

lemma surroundText_count:
  assumes "nodeAt d p = Some (Text s)" and "p \<noteq> []"
  shows "length (matching P (surroundText d p s a b ty gid)) =
         length (matching P d) +
         (if P ''mark'' [(''class'', ''gogo-highlight-'' @ typeName ty), (''data-gogo-id'', gid)]
          then 1 else 0)"
  using matching_splice_length[OF assms, of P
      "[Text (take a s), createMark ty gid (if a = b then [] else [Text (drop a (take b s))]),
        Text (drop b s)]"]
  by (simp add: surroundText_def createMark_def)

lemma surroundText_text:
  assumes "nodeAt d p = Some (Text s)" and "p \<noteq> []" and "a \<le> b"
  shows "textContent (surroundText d p s a b ty gid) = textContent d"
proof -
  have "take a s @ drop a (take b s) @ drop b s = s"
    using assms(3) by (metis append.assoc append_take_drop_id min.absorb1 take_take)
  moreover have "a = b \<Longrightarrow> take a s @ drop b s = s" by simp
  ultimately show ?thesis
    unfolding surroundText_def
    by (intro textContent_splice[OF assms(1,2)]) (simp add: createMark_def)
qed

lemma wrapAll_count:
  "fragsOk d fs \<Longrightarrow>
   length (matching P (wrapAll pf d ty gid k fs)) =
   length (matching P d) +
   (if P ''mark'' [(''class'', ''gogo-highlight-'' @ typeName ty), (''data-gogo-id'', gid)]
    then wrapped pf k (length fs) else 0)"
proof (induction pf d ty gid k fs rule: wrapAll.induct)
  case (1 pf d ty gid index)
  then show ?case by simp
next
  case (2 pf d ty gid index f fs)
  from fragsOk_Cons[OF 2(3)] have fok: "fragOk d f" and rest: "fragsOk d fs" by auto
  show ?case
  proof (cases "wrapFault pf index")
    case None
    from wrapFragment_ok[OF fok None, of ty gid] obtain s where
      s: "nodeAt d (node f) = Some (Text s)" and
      w: "wrapFragment pf d ty gid index f =
            Returns (surroundText d (node f) s (fragStart f) (fragEnd f) ty gid)" by blast
    have ne: "node f \<noteq> []" using fok by (simp add: fragOk_def)
    have ok': "fragsOk (surroundText d (node f) s (fragStart f) (fragEnd f) ty gid)
                 (map (relocateFragment (node f)) fs)"
      unfolding surroundText_def by (rule fragsOk_step[OF 2(3) s])
    show ?thesis
      using 2(1)[OF w ok'] w None surroundText_count[OF s ne, of P]
      by (simp add: wrapped_Suc)
  next
    case (Some e)
    from wrapFragment_fault[OF fok Some, of ty gid] have w: "wrapFragment pf d ty gid index f = Throws e" .
    from 2(2)[OF w rest] w Some show ?thesis by (simp add: wrapped_Suc)
  qed
qed

lemma wrapAll_text:
  "fragsOk d fs \<Longrightarrow> textContent (wrapAll pf d ty gid k fs) = textContent d"
proof (induction pf d ty gid k fs rule: wrapAll.induct)
  case (1 pf d ty gid index)
  then show ?case by simp
next
  case (2 pf d ty gid index f fs)
  from fragsOk_Cons[OF 2(3)] have fok: "fragOk d f" and rest: "fragsOk d fs" by auto
  show ?case
  proof (cases "wrapFault pf index")
    case None
    from wrapFragment_ok[OF fok None, of ty gid] obtain s where
      s: "nodeAt d (node f) = Some (Text s)" and
      w: "wrapFragment pf d ty gid index f =
            Returns (surroundText d (node f) s (fragStart f) (fragEnd f) ty gid)" by blast
    have ne: "node f \<noteq> []" and le: "fragStart f \<le> fragEnd f" using fok by (simp_all add: fragOk_def)
    have ok': "fragsOk (surroundText d (node f) s (fragStart f) (fragEnd f) ty gid)
                 (map (relocateFragment (node f)) fs)"
      unfolding surroundText_def by (rule fragsOk_step[OF 2(3) s])
    show ?thesis
      using 2(1)[OF w ok'] w surroundText_text[OF s ne le] by simp
  next
    case (Some e)
    from wrapFragment_fault[OF fok Some, of ty gid] have w: "wrapFragment pf d ty gid index f = Throws e" .
    from 2(2)[OF w rest] w show ?thesis by simp
  qed
qed

lemma commonPrefix_same [simp]: "commonPrefix p p = p"
  by (induction p) auto

lemma getTextNodesInRange_single:
  "singleTextNode d r \<Longrightarrow> getTextNodesInRange d r = []"
  by (auto simp: singleTextNode_def getTextNodesInRange_def treeWalkerTextNodes_def
      commonAncestorContainer_def textData_def split: option.splits node.splits)

lemma fragsOk_getTextNodesInRange:
  assumes vr: "valid_range d r"
  shows "fragsOk d (getTextNodesInRange d r)"
proof (cases "singleTextNode d r")
  case True
  then show ?thesis by (simp add: getTextNodesInRange_single fragsOk_def)
next
  case False
  note f = getTextNodesInRange_filter[OF vr False]
  have srt: "sorted_wrt (<) (map node (getTextNodesInRange d r))"
  proof -
    have "map node (getTextNodesInRange d r) =
        map fst (filter (\<lambda>x. intersectsNode r (fst x) \<and> nonEmpty (clipFragment r x)) (textNodes d))"
      by (simp add: f comp_def clipFragment_def)
    also have "sorted_wrt (<) \<dots>"
      using sorted_textNodes(1)[of d]
      by (simp add: sorted_wrt_map sorted_wrt_filter)
    finally show ?thesis .
  qed
  then have dist: "distinct (map node (getTextNodesInRange d r))"
    by (simp add: strict_sorted_iff)
  have "\<And>x. x \<in> set (textNodes d) \<Longrightarrow> nonEmpty (clipFragment r x) \<Longrightarrow> fragOk d (clipFragment r x)"
  proof -
    fix x assume x: "x \<in> set (textNodes d)" and ne: "nonEmpty (clipFragment r x)"
    from x have q: "nodeAt d (fst x) = Some (Text (snd x))"
      using textNodes_nodeAt(1)[of "fst x" "snd x" d] by simp
    have n0: "fst x \<noteq> []" by (rule not_single_nonroot[OF vr False q])
    have "fragEnd (clipFragment r x) \<le> length (snd x)"
      using valid_point_text[OF valid_range_points(2)[OF vr], of "snd x"] q
      by (auto simp: clipFragment_def)
    with q n0 ne show "fragOk d (clipFragment r x)"
      by (simp add: fragOk_def nonEmpty_def clipFragment_def)
  qed
  then have "list_all (fragOk d) (getTextNodesInRange d r)"
    unfolding f by (auto simp: list_all_iff)
  with dist show ?thesis by (simp add: fragsOk_def)
qed

lemma wrapAll_all_fault:
  "wrapped pf k (length fs) = 0 \<Longrightarrow> wrapAll pf d ty gid k fs = d"
proof (induction pf d ty gid k fs rule: wrapAll.induct)
  case (1 pf d ty gid index)
  then show ?case by simp
next
  case (2 pf d ty gid index f fs)
  from 2(3) have f: "wrapFault pf index \<noteq> None" and rest: "wrapped pf (Suc index) (length fs) = 0"
    by (auto simp: wrapped_Suc split: if_splits)
  from f obtain e where "wrapFragment pf d ty gid index f = Throws e"
    by (cases "wrapFragment pf d ty gid index f")
       (auto simp: wrapFragment_def Let_def split: option.splits if_splits node.splits)
  with 2(2)[OF this rest] show ?case by simp
qed

lemma highlightRange_with_id:
  "effectiveId pf customId = Returns gid \<Longrightarrow>
   highlightRange pf d r ty customId =
     (if getTextNodesInRange d r = [] then highlightRangeLegacy pf d r ty gid
      else (wrapAll pf d ty gid 0 (getTextNodesInRange d r),
            querySelector_gogoId (wrapAll pf d ty gid 0 (getTextNodesInRange d r)) gid))"
  by (simp add: highlightRange_def effectiveId_def Let_def)

lemma highlightRange_no_id:
  "effectiveId pf customId = Throws e \<Longrightarrow> highlightRange pf d r ty customId = (d, Throws e)"
  by (simp add: highlightRange_def effectiveId_def)

lemma effectiveId_custom [simp]: "gid \<noteq> [] \<Longrightarrow> effectiveId pf (Some gid) = Returns gid"
  by (simp add: effectiveId_def)

section \<open>The error policy of the fragment loop\<close>

text \<open>
  C5 (as stated): when the wrap of a fragment throws, the fragment is skipped and the others
  are still wrapped; creation succeeds whenever at least one fragment was produced, and the
  legacy whole-range wrap is invoked if and only if no fragment was produced. For the
  paragraph \<open>ab<b>cd</b>ef\<close> and the range from offset 1 of \<open>ab\<close> to offset 1 of \<open>ef\<close>
  the splitter finds three fragments. When every wrap throws, no marker is produced, the
  document is unchanged and \<open>highlightRange\<close> returns null, which is not what the legacy
  wrap returns: the legacy wrap is not invoked. On the platform without faults every
  fragment is wrapped, and with the identifier \<open>a"b\<close> the final \<open>querySelector\<close> throws
  a \<open>SyntaxError\<close> out of \<open>highlightRange\<close>. Without a custom identifier, where
  \<open>crypto.randomUUID\<close> is missing, the call throws a \<open>TypeError\<close> before it looks for a
  fragment.
\<close>

theorem highlightRange_all_wraps_throw_counterexample:
  "valid_range doc_bold range_bold \<and>
   length (getTextNodesInRange doc_bold range_bold) = 3 \<and>
   highlightRange pf_faulty doc_bold range_bold Agree (Some ''a1'') = (doc_bold, Returns None) \<and>
   highlightRange pf_faulty doc_bold range_bold Agree (Some ''a1'') \<noteq>
     highlightRangeLegacy pf_faulty doc_bold range_bold Agree ''a1'' \<and>
   snd (highlightRange pf_demo doc_bold range_bold Agree (Some quoted_id)) = Throws SyntaxError \<and>
   highlightRange pf_insecure doc_bold range_bold Agree None = (doc_bold, Throws TypeError)"
  by (simp add: doc_bold_def range_bold_def valid_range_def valid_point_def
      getTextNodesInRange_def treeWalkerTextNodes_def commonAncestorContainer_def
      intersectsNode_def highlightRange_def pf_faulty_def pf_demo_def pf_insecure_def
      wrapFragment_def querySelector_gogoId_def selectorSafe_def unsafeChar_def hasGogoId_def
      firstOf_def highlightRangeLegacy_def surroundContents_def textData_def quoted_id_def
      Let_def)

text \<open>
  C5 (amended): let the identifier of the call (the custom one, or else the one
  \<open>crypto.randomUUID()\<close> returns) have no double quote, backslash, line break or NUL
  character. The legacy whole-range wrap is invoked if and only if the splitter finds no
  fragment. Otherwise the document is the one the loop leaves: a fragment whose wrap throws
  is skipped and every other fragment is wrapped, so the document gains exactly one marker
  with the identifier for each fragment whose wrap does not throw, its text content does
  not change, and it is as it was when every wrap throws. The call returns the first
  element of the document that carries the identifier, and returns null exactly when no
  element carries it; so it succeeds whenever the wrap of at least one fragment succeeded.
\<close>

theorem highlightRange_wrap_policy:
  assumes vr: "valid_range d r" and eff: "effectiveId pf customId = Returns gid"
    and safe: "selectorSafe gid"
  shows "(getTextNodesInRange d r = [] \<longrightarrow>
            highlightRange pf d r ty customId = highlightRangeLegacy pf d r ty gid) \<and>
         (getTextNodesInRange d r \<noteq> [] \<longrightarrow>
            (\<exists>d' firstMark.
               highlightRange pf d r ty customId = (d', Returns firstMark) \<and>
               d' = wrapAll pf d ty gid 0 (getTextNodesInRange d r) \<and>
               markers d' gid = markers d gid + wrapped pf 0 (length (getTextNodesInRange d r)) \<and>
               textContent d' = textContent d \<and>
               (wrapped pf 0 (length (getTextNodesInRange d r)) = 0 \<longrightarrow> d' = d) \<and>
               firstMark = firstOf (matching (hasGogoId gid) d') \<and>
               (firstMark \<noteq> None \<longleftrightarrow> 0 < markers d' gid)))"
proof (intro conjI impI)
  assume "getTextNodesInRange d r = []"
  then show "highlightRange pf d r ty customId = highlightRangeLegacy pf d r ty gid"
    by (simp add: highlightRange_with_id[OF eff])
next
  assume ne: "getTextNodesInRange d r \<noteq> []"
  let ?n = "length (getTextNodesInRange d r)"
  let ?d = "wrapAll pf d ty gid 0 (getTextNodesInRange d r)"
  note ok = fragsOk_getTextNodesInRange[OF vr]
  have h: "highlightRange pf d r ty customId = (?d, Returns (firstOf (matching (hasGogoId gid) ?d)))"
    using ne safe by (simp add: highlightRange_with_id[OF eff] querySelector_gogoId_def)
  have c: "markers ?d gid = markers d gid + wrapped pf 0 ?n"
    unfolding markers_def using wrapAll_count[OF ok, of "hasGogoId gid" pf ty gid 0]
    by (simp add: hasGogoId_def)
  have t: "textContent ?d = textContent d" by (rule wrapAll_text[OF ok])
  have u: "wrapped pf 0 ?n = 0 \<longrightarrow> ?d = d" by (simp add: wrapAll_all_fault)
  have f: "firstOf (matching (hasGogoId gid) ?d) \<noteq> None \<longleftrightarrow> 0 < markers ?d gid"
    by (simp add: markers_def)
  from h c t u f show "\<exists>d' firstMark.
               highlightRange pf d r ty customId = (d', Returns firstMark) \<and>
               d' = wrapAll pf d ty gid 0 (getTextNodesInRange d r) \<and>
               markers d' gid = markers d gid + wrapped pf 0 (length (getTextNodesInRange d r)) \<and>
               textContent d' = textContent d \<and>
               (wrapped pf 0 (length (getTextNodesInRange d r)) = 0 \<longrightarrow> d' = d) \<and>
               firstMark = firstOf (matching (hasGogoId gid) d') \<and>
               (firstMark \<noteq> None \<longleftrightarrow> 0 < markers d' gid)"
    by (intro exI[of _ ?d] exI[of _ "firstOf (matching (hasGogoId gid) ?d)"] conjI) simp_all
qed

theorem highlightRange_wrap_policy_witness:
  "valid_range doc_bold range_bold \<and> effectiveId pf_skip (Some ''a1'') = Returns ''a1'' \<and>
   selectorSafe ''a1'' \<and>
   length (getTextNodesInRange doc_bold range_bold) = 3 \<and>
   wrapped pf_skip 0 3 = 2 \<and>
   markers doc_bold ''a1'' = 0 \<and>
   markers (fst (highlightRange pf_skip doc_bold range_bold Agree (Some ''a1''))) ''a1'' = 2 \<and>
   highlightRange pf_skip doc_bold range_bold Agree (Some ''a1'') =
     (Elem ''p'' []
        [Text ''a'', createMark Agree ''a1'' [Text ''b''], Text [],
         Elem ''b'' [] [Text ''cd''],
         Text [], createMark Agree ''a1'' [Text ''e''], Text ''f''],
      Returns (Some [1]))"
proof -
  have v: "valid_range doc_bold range_bold"
    by (simp add: doc_bold_def range_bold_def valid_range_def valid_point_def)
  have e: "effectiveId pf_skip (Some ''a1'') = Returns ''a1''" by (simp add: effectiveId_def)
  have s: "selectorSafe ''a1''" by (simp add: selectorSafe_def unsafeChar_def)
  have g: "getTextNodesInRange doc_bold range_bold
     = [\<lparr>node = [0], fragStart = 1, fragEnd = 2\<rparr>,
        \<lparr>node = [1, 0], fragStart = 0, fragEnd = 2\<rparr>,
        \<lparr>node = [2], fragStart = 0, fragEnd = 1\<rparr>]"
    by (simp add: doc_bold_def range_bold_def getTextNodesInRange_def treeWalkerTextNodes_def
        commonAncestorContainer_def intersectsNode_def)
  have w: "wrapped pf_skip 0 3 = 2"
    by (simp add: wrapped_def pf_skip_def pf_demo_def upt_rec)
  have m: "markers doc_bold ''a1'' = 0"
    by (simp add: markers_def doc_bold_def hasGogoId_def)
  have h: "highlightRange pf_skip doc_bold range_bold Agree (Some ''a1'') =
     (Elem ''p'' []
        [Text ''a'', createMark Agree ''a1'' [Text ''b''], Text [],
         Elem ''b'' [] [Text ''cd''],
         Text [], createMark Agree ''a1'' [Text ''e''], Text ''f''],
      Returns (Some [1]))"
    unfolding highlightRange_def g
    by (simp add: doc_bold_def pf_skip_def pf_demo_def wrapFragment_def surroundText_def
        relocateFragment_def querySelector_gogoId_def selectorSafe_def unsafeChar_def
        hasGogoId_def firstOf_def createMark_def Let_def)
  have l: "length (getTextNodesInRange doc_bold range_bold) = 3" by (simp add: g)
  have ne: "getTextNodesInRange doc_bold range_bold \<noteq> []" by (simp add: g)
  from highlightRange_wrap_policy[OF v e s, of Agree] ne obtain d' fm where
    "highlightRange pf_skip doc_bold range_bold Agree (Some ''a1'') = (d', Returns fm)" and
    "markers d' ''a1'' =
       markers doc_bold ''a1'' +
       wrapped pf_skip 0 (length (getTextNodesInRange doc_bold range_bold))" by blast
  then have c: "markers (fst (highlightRange pf_skip doc_bold range_bold Agree (Some ''a1''))) ''a1'' =
        markers doc_bold ''a1'' + wrapped pf_skip 0 3"
    by (simp add: l)
  from c v e s l w m h show ?thesis by simp
qed

section \<open>Replacing markers by text and normalizing\<close>

lemma matching_iff:
  "q \<in> set (matching P d) \<longleftrightarrow> (\<exists>t a cs. nodeAt d q = Some (Elem t a cs) \<and> P t a)"
  "q \<in> set (matching_children P ks i) \<longleftrightarrow>
     (\<exists>j r t a cs. q = (i + j) # r \<and> j < length ks \<and>
        nodeAt (ks ! j) r = Some (Elem t a cs) \<and> P t a)"
proof (induction P d and P ks i arbitrary: q and q rule: matching_matching_children.induct)
  case (1 P s)
  show ?case by (cases q) auto
next
  case (2 P t a cs)
  show ?case
  proof (cases q)
    case Nil
    then show ?thesis using 2[of q] by auto
  next
    case (Cons j r)
    then show ?thesis using 2[of q] by auto
  qed
next
  case (3 P i)
  show ?case by simp
next
  case (4 P c cs i)
  show ?case
  proof
    assume "q \<in> set (matching_children P (c # cs) i)"
    then consider r where "q = i # r" "r \<in> set (matching P c)"
      | "q \<in> set (matching_children P cs (Suc i))" by auto
    then show "\<exists>j r t a ks. q = (i + j) # r \<and> j < length (c # cs) \<and>
        nodeAt ((c # cs) ! j) r = Some (Elem t a ks) \<and> P t a"
    proof cases
      case 1
      with 4(1)[of r] obtain t a ks where "nodeAt c r = Some (Elem t a ks)" "P t a" by blast
      with 1 have "q = (i + 0) # r \<and> 0 < length (c # cs) \<and>
        nodeAt ((c # cs) ! 0) r = Some (Elem t a ks) \<and> P t a" by simp
      then show ?thesis by blast
    next
      case 2
      with 4(2)[of q] obtain j r t a ks where "q = (Suc i + j) # r" "j < length cs"
        "nodeAt (cs ! j) r = Some (Elem t a ks)" "P t a" by blast
      then have "q = (i + Suc j) # r \<and> Suc j < length (c # cs) \<and>
        nodeAt ((c # cs) ! Suc j) r = Some (Elem t a ks) \<and> P t a" by simp
      then show ?thesis by blast
    qed
  next
    assume "\<exists>j r t a ks. q = (i + j) # r \<and> j < length (c # cs) \<and>
        nodeAt ((c # cs) ! j) r = Some (Elem t a ks) \<and> P t a"
    then obtain j r t a ks where j: "q = (i + j) # r" "j < length (c # cs)"
        "nodeAt ((c # cs) ! j) r = Some (Elem t a ks)" "P t a" by blast
    show "q \<in> set (matching_children P (c # cs) i)"
    proof (cases j)
      case 0
      with j 4(1)[of r] show ?thesis by auto
    next
      case (Suc k)
      with j have "q = (Suc i + k) # r \<and> k < length cs \<and>
        nodeAt (cs ! k) r = Some (Elem t a ks) \<and> P t a" by simp
      then have "q \<in> set (matching_children P cs (Suc i))" using 4(2)[of q] by blast
      then show ?thesis by simp
    qed
  qed
qed

lemma spliceAt_text_nodeAt:
  "nodeAt d p = Some (Elem t0 a0 cs0) \<Longrightarrow> p \<noteq> [] \<Longrightarrow>
   nodeAt (spliceAt d p [Text x]) q = Some (Elem t a cs') \<Longrightarrow>
   (\<exists>cs. nodeAt d q = Some (Elem t a cs)) \<and> q \<noteq> p"
proof (induction d p "[Text x]" arbitrary: q cs' rule: spliceAt.induct)
  case (1 t1 a1 cs i)
  then have i: "i < length cs" by (auto split: if_splits)
  have upd: "take i cs @ [Text x] @ drop (Suc i) cs = cs[i := Text x]"
    using i by (simp add: upd_conv_take_nth_drop)
  show ?case
  proof (cases q)
    case Nil
    with 1 i show ?thesis by simp
  next
    case (Cons j r)
    with 1(3) i upd have j: "j < length cs" and
      n: "nodeAt (cs[i := Text x] ! j) r = Some (Elem t a cs')"
      by (auto split: if_splits)
    show ?thesis
    proof (cases "j = i")
      case True
      with n i have "nodeAt (Text x) r = Some (Elem t a cs')" by simp
      then show ?thesis by (cases r) auto
    next
      case False
      with n j Cons show ?thesis by simp
    qed
  qed
next
  case (2 t1 a1 cs i j p)
  then have i: "i < length cs" and old: "nodeAt (cs ! i) (j # p) = Some (Elem t0 a0 cs0)"
    by (auto split: if_splits)
  show ?case
  proof (cases q)
    case Nil
    with 2 i show ?thesis by simp
  next
    case (Cons k r)
    with 2(4) i have k: "k < length cs" and
      n: "nodeAt (cs[i := spliceAt (cs ! i) (j # p) [Text x]] ! k) r = Some (Elem t a cs')"
      by (auto split: if_splits)
    show ?thesis
    proof (cases "k = i")
      case True
      with n i have "nodeAt (spliceAt (cs ! i) (j # p) [Text x]) r = Some (Elem t a cs')" by simp
      from 2(1)[OF i old _ this] True Cons k show ?thesis by simp
    next
      case False
      with n k Cons show ?thesis by simp
    qed
  qed
qed (auto dest: nodeAt_Text_root)

lemma replaceWithText_matching:
  assumes "p \<noteq> []"
  shows "set (matching P (replaceWithText d p)) \<subseteq> set (matching P d) - {p}"
proof (cases "nodeAt d p")
  case None
  then have "p \<notin> set (matching P d)" by (simp add: matching_iff(1))
  with None show ?thesis by (simp add: replaceWithText_def)
next
  case (Some n)
  show ?thesis
  proof (cases n)
    case (Text s)
    with Some have "p \<notin> set (matching P d)" by (simp add: matching_iff(1))
    with Some Text show ?thesis by (simp add: replaceWithText_def)
  next
    case (Elem t0 a0 cs0)
    with Some have old: "nodeAt d p = Some (Elem t0 a0 cs0)" by simp
    have r: "replaceWithText d p = spliceAt d p [Text (textContent (Elem t0 a0 cs0))]"
      by (simp add: replaceWithText_def old)
    show ?thesis
    proof
      fix q assume "q \<in> set (matching P (replaceWithText d p))"
      then obtain t a cs' where
        "nodeAt (spliceAt d p [Text (textContent (Elem t0 a0 cs0))]) q = Some (Elem t a cs')"
        and P: "P t a" unfolding r matching_iff(1) by blast
      from spliceAt_text_nodeAt[OF old assms this(1)] P
      show "q \<in> set (matching P d) - {p}" by (auto simp: matching_iff(1))
    qed
  qed
qed

lemma replaceWithText_text:
  "p \<noteq> [] \<Longrightarrow> textContent (replaceWithText d p) = textContent d"
  by (auto simp: replaceWithText_def split: option.splits node.splits
      intro!: textContent_splice)

lemma removeFragments_ok:
  "[] \<notin> set ps \<Longrightarrow>
   \<exists>d'. removeFragments d ps = (d', Returns ()) \<and>
        set (matching P d') \<subseteq> set (matching P d) - set ps \<and>
        textContent d' = textContent d"
proof (induction ps arbitrary: d)
  case Nil
  then show ?case by simp
next
  case (Cons p ps)
  then have p: "p \<noteq> []" and ps: "[] \<notin> set ps" by auto
  from Cons.IH[OF ps, of "replaceWithText d p"] obtain d' where
    d': "removeFragments (replaceWithText d p) ps = (d', Returns ())"
    "set (matching P d') \<subseteq> set (matching P (replaceWithText d p)) - set ps"
    "textContent d' = textContent (replaceWithText d p)" by blast
  with replaceWithText_matching[OF p, of P d] replaceWithText_text[OF p, of d] p
  have "removeFragments d (p # ps) = (d', Returns ()) \<and>
        set (matching P d') \<subseteq> set (matching P d) - set (p # ps) \<and>
        textContent d' = textContent d" by auto
  then show ?case by blast
qed

lemma normalizeChildren_text:
  "concat (map textContent (normalizeChildren cs)) = concat (map textContent cs)"
  by (induction cs rule: normalizeChildren.induct) (auto split: list.splits node.splits)

lemma normalize_text [simp]: "textContent (normalize n) = textContent n"
  by (cases n) (simp_all add: normalizeChildren_text)

lemma normalizeChildren_count:
  "sum_list (map (\<lambda>c. length (matching P c)) (normalizeChildren cs)) =
   sum_list (map (\<lambda>c. length (matching P c)) cs)"
  by (induction cs rule: normalizeChildren.induct)
     (auto simp: matching_children_length split: list.splits node.splits)

lemma normalize_count [simp]: "length (matching P (normalize n)) = length (matching P n)"
  by (cases n) (simp_all add: matching_children_length normalizeChildren_count)

lemma updateAt_text:
  "(\<And>n. textContent (g n) = textContent n) \<Longrightarrow> textContent (updateAt d p g) = textContent d"
proof (induction d p g rule: updateAt.induct)
  case (3 t a cs i p g)
  show ?case
  proof (cases "i < length cs")
    case True
    from 3(1)[OF True 3(2)] have "map textContent (cs[i := updateAt (cs ! i) p g]) = map textContent cs"
      using True by (simp add: map_update list_update_same_conv)
    with True show ?thesis by simp
  next
    case False
    then show ?thesis by simp
  qed
qed auto

lemma updateAt_count:
  "(\<And>n. length (matching P (g n)) = length (matching P n)) \<Longrightarrow>
   length (matching P (updateAt d p g)) = length (matching P d)"
proof (induction d p g rule: updateAt.induct)
  case (3 t a cs i p g)
  show ?case
  proof (cases "i < length cs")
    case True
    from 3(1)[OF True 3(2)]
    have "map (\<lambda>c. length (matching P c)) (cs[i := updateAt (cs ! i) p g]) =
          map (\<lambda>c. length (matching P c)) cs"
      using True by (simp add: map_update list_update_same_conv)
    with True show ?thesis by (simp add: matching_children_length)
  next
    case False
    then show ?thesis by simp
  qed
qed auto

lemma firstBodyIndex_cong:
  "map isBodyTag cs = map isBodyTag cs' \<Longrightarrow> firstBodyIndex cs j = firstBodyIndex cs' j"
proof (induction cs j arbitrary: cs' rule: firstBodyIndex.induct)
  case (1 i)
  then show ?case by simp
next
  case (2 s cs i)
  then obtain c' ks' where cs': "cs' = c' # ks'" by (cases cs') auto
  with 2 show ?case by (cases c') (auto simp: isBodyTag_def)
next
  case (3 t a ks cs i)
  then obtain c' ks' where cs': "cs' = c' # ks'" by (cases cs') auto
  with 3 show ?case by (cases c') (auto simp: isBodyTag_def)
qed

lemma firstBodyIndex_update_text:
  "firstBodyIndex cs j = Some k \<Longrightarrow> j + i \<noteq> k \<Longrightarrow>
   firstBodyIndex (cs[i := Text x]) j = Some k"
proof (induction cs j arbitrary: i rule: firstBodyIndex.induct)
  case (1 i)
  then show ?case by simp
next
  case (2 s cs j)
  then show ?case by (cases i) auto
next
  case (3 t a ks cs j)
  then show ?case by (cases i) (auto split: if_splits)
qed

lemma spliceAt_tag:
  "isBodyTag (spliceAt n p ns) = isBodyTag n"
  by (cases "(n, p, ns)" rule: spliceAt.cases) (auto simp: isBodyTag_def)

lemma bodyPath_replaceWithText:
  assumes b: "bodyPath d = Some b" and pb: "p \<noteq> b" and p0: "p \<noteq> []"
  shows "bodyPath (replaceWithText d p) = Some b"
proof (cases "\<exists>t0 a0 cs0. nodeAt d p = Some (Elem t0 a0 cs0)")
  case False
  then show ?thesis using b by (auto simp: replaceWithText_def split: option.splits node.splits)
next
  case True
  then obtain t0 a0 cs0 where old: "nodeAt d p = Some (Elem t0 a0 cs0)" by blast
  from b obtain a cs k where d: "d = Elem ''html'' a cs" and k: "firstBodyIndex cs 0 = Some k"
    and bk: "b = [k]"
    by (cases d) (auto split: if_splits)
  from p0 obtain i q where p: "p = i # q" by (cases p) auto
  from old d p have i: "i < length cs" by (auto split: if_splits)
  let ?x = "Text (textContent (Elem t0 a0 cs0))"
  show ?thesis
  proof (cases q)
    case Nil
    with pb bk p have ik: "0 + i \<noteq> k" by simp
    have "take i cs @ [?x] @ drop (Suc i) cs = cs[i := ?x]"
      using i by (simp add: upd_conv_take_nth_drop)
    with firstBodyIndex_update_text[OF k ik, of "textContent (Elem t0 a0 cs0)"] Nil p d i old bk
    show ?thesis by (simp add: replaceWithText_def)
  next
    case (Cons j r)
    have "map isBodyTag (cs[i := spliceAt (cs ! i) (j # r) [?x]]) = map isBodyTag cs"
      using i by (simp add: map_update list_update_same_conv spliceAt_tag del: spliceAt.simps)
    from firstBodyIndex_cong[OF this, of 0] k Cons p d i old bk
    show ?thesis by (simp add: replaceWithText_def del: spliceAt.simps) (simp add: d)
  qed
qed

lemma removeFragments_body:
  "bodyPath d = Some b \<Longrightarrow> [] \<notin> set ps \<Longrightarrow> b \<notin> set ps \<Longrightarrow>
   bodyPath (fst (removeFragments d ps)) = Some b"
proof (induction ps arbitrary: d)
  case Nil
  then show ?case by simp
next
  case (Cons p ps)
  then have p: "p \<noteq> []" "p \<noteq> b" and ps: "[] \<notin> set ps" "b \<notin> set ps" by auto
  from Cons.IH[OF bodyPath_replaceWithText[OF Cons.prems(1) p(2) p(1)] ps] p
  show ?case by simp
qed

lemma highlightRange_text:
  assumes vr: "valid_range d0 r"
    and path: "getTextNodesInRange d0 r \<noteq> [] \<or> textConfined d0 r"
  shows "textContent (fst (highlightRange pf d0 r ty customId)) = textContent d0"
proof (cases "effectiveId pf customId")
  case (Throws e)
  then show ?thesis by (simp add: highlightRange_no_id)
next
  case (Returns gid)
  note h = highlightRange_with_id[OF Returns, of d0 r ty]
  show ?thesis
  proof (cases "getTextNodesInRange d0 r = []")
    case False
    then show ?thesis
      using wrapAll_text[OF fragsOk_getTextNodesInRange[OF vr]] by (simp add: h)
  next
    case True
    with path have c: "textConfined d0 r" by simp
    then have c3: "(startContainer r = endContainer r \<and>
        textData d0 (startContainer r) \<noteq> None) \<and> startContainer r \<noteq> []"
      unfolding textConfined_def singleTextNode_def .
    from c3 have e: "endContainer r = startContainer r" by (elim conjE) (rule sym)
    from c3 have n0: "startContainer r \<noteq> []" by (elim conjE)
    from c3 have td0: "textData d0 (startContainer r) \<noteq> None" by (elim conjE)
    from td0 obtain s where s: "nodeAt d0 (startContainer r) = Some (Text s)"
      unfolding textData_def by (auto split: option.splits node.splits)
    have "\<not> startContainer r @ [endOffset r] < startContainer r @ [startOffset r]"
      using valid_range_order[OF vr] unfolding e .
    then have le: "startOffset r \<le> endOffset r" by simp
    have td: "textData d0 (startContainer r) = Some s" using s by (simp add: textData_def)
    have sc: "surroundContents pf d0 r ty gid =
        (surroundText d0 (startContainer r) s (startOffset r) (endOffset r) ty gid,
         Returns (markPath (startContainer r)))"
      unfolding surroundContents_def td using e n0 by simp
    have "highlightRange pf d0 r ty customId = highlightRangeLegacy pf d0 r ty gid"
      using True by (simp add: h)
    also have "\<dots> = (surroundText d0 (startContainer r) s (startOffset r) (endOffset r) ty
           gid, Returns (Some (markPath (startContainer r))))"
      unfolding highlightRangeLegacy_def sc by simp
    finally show ?thesis by (simp add: surroundText_text[OF s n0 le])
  qed
qed

lemma normalizeChildren_normalized: "normalizedChildren (normalizeChildren cs)"
proof (induction cs rule: normalizeChildren.induct)
  case 1
  show ?case by simp
next
  case (2 t a ks cs)
  then show ?case by simp
next
  case (3 s cs)
  show ?case
  proof (cases "normalizeChildren cs")
    case Nil
    then show ?thesis by simp
  next
    case (Cons c rest)
    with 3 show ?thesis by (cases c) (auto split: list.splits node.splits)
  qed
qed

lemma normalize_normalized: "isNormalized (normalize n)"
  by (cases n) (simp_all add: isNormalized_def normalizeChildren_normalized)

lemma updateAt_nodeAt:
  "nodeAt d p = Some n \<Longrightarrow> nodeAt (updateAt d p g) p = Some (g n)"
  by (induction d p g rule: updateAt.induct) (auto split: if_splits)

lemma firstBodyIndex_bound:
  "firstBodyIndex cs j = Some k \<Longrightarrow> j \<le> k \<and> k - j < length cs"
  by (induction cs j rule: firstBodyIndex.induct) (auto split: if_splits)

lemma bodyPath_nodeAt:
  "bodyPath d = Some b \<Longrightarrow> \<exists>n. nodeAt d b = Some n"
  by (cases d) (auto split: if_splits dest: firstBodyIndex_bound)

lemma replaceWithText_child:
  "i < length cs \<Longrightarrow>
   replaceWithText (Elem t a cs) (i # p) = Elem t a (cs[i := replaceNode (cs ! i) p])"
proof (cases p)
  case Nil
  assume i: "i < length cs"
  have u: "\<And>x. take i cs @ [x] @ drop (Suc i) cs = cs[i := x]"
    using i by (simp add: upd_conv_take_nth_drop)
  show ?thesis
  proof (cases "cs ! i")
    case (Text x1)
    then have "cs[i := Text x1] = cs" using i by (simp add: list_update_same_conv)
    with Nil i Text show ?thesis by (simp add: replaceWithText_def replaceNode_def)
  next
    case (Elem t0 a0 c0)
    with Nil i u show ?thesis by (simp add: replaceWithText_def replaceNode_def)
  qed
next
  case (Cons j q)
  assume i: "i < length cs"
  show ?thesis
  proof (cases "\<exists>t0 a0 c0. nodeAt (cs ! i) (j # q) = Some (Elem t0 a0 c0)")
    case True
    then obtain t0 a0 c0 where "nodeAt (cs ! i) (j # q) = Some (Elem t0 a0 c0)" by blast
    with Cons i show ?thesis by (simp add: replaceWithText_def replaceNode_def)
  next
    case False
    then have "replaceWithText (cs ! i) (j # q) = cs ! i"
      by (auto simp: replaceWithText_def split: option.splits node.splits)
    moreover from False have "replaceWithText (Elem t a cs) (i # j # q) = Elem t a cs"
      using i by (auto simp: replaceWithText_def split: option.splits node.splits)
    ultimately show ?thesis using Cons i by (simp add: replaceNode_def list_update_same_conv)
  qed
qed

lemma foldl_replace_child:
  "i < length cs \<Longrightarrow>
   foldl replaceWithText (Elem t a cs) (map (\<lambda>q. i # q) ps) =
   Elem t a (cs[i := foldl replaceNode (cs ! i) ps])"
proof (induction ps arbitrary: cs)
  case Nil
  then show ?case by (simp add: list_update_same_conv)
next
  case (Cons p ps)
  have l: "i < length (cs[i := replaceNode (cs ! i) p])" using Cons.prems by simp
  show ?case
    using Cons.IH[OF l] Cons.prems by (simp add: replaceWithText_child)
qed

lemma replaceNode_Text [simp]: "replaceNode (Text s) p = Text s"
  by (cases p) (simp_all add: replaceNode_def replaceWithText_def)

lemma replaceNode_Nil [simp]: "replaceNode (Elem t a cs) [] = Text (textContent (Elem t a cs))"
  by (simp add: replaceNode_def)

lemma foldl_replaceNode_Text [simp]: "foldl replaceNode (Text s) ps = Text s"
  by (induction ps) simp_all

lemma foldl_replace_children:
  assumes ih: "\<And>c. c \<in> set ks \<Longrightarrow> foldl replaceNode c (matching P c) = replaceMarkers P c"
  shows "foldl replaceWithText (Elem t a (pre @ ks)) (matching_children P ks (length pre)) =
         Elem t a (pre @ map (replaceMarkers P) ks)"
  using ih
proof (induction ks arbitrary: pre)
  case Nil
  then show ?case by simp
next
  case (Cons c ks)
  have i: "length pre < length (pre @ c # ks)" by simp
  have first: "foldl replaceWithText (Elem t a (pre @ c # ks))
      (map (\<lambda>q. length pre # q) (matching P c)) =
      Elem t a ((pre @ [replaceMarkers P c]) @ ks)"
    using foldl_replace_child[OF i, of t a "matching P c"] Cons.prems[of c]
    by simp
  have "foldl replaceWithText (Elem t a ((pre @ [replaceMarkers P c]) @ ks))
      (matching_children P ks (length (pre @ [replaceMarkers P c]))) =
      Elem t a ((pre @ [replaceMarkers P c]) @ map (replaceMarkers P) ks)"
    by (rule Cons.IH) (simp add: Cons.prems)
  with first show ?case by simp
qed

lemma matching_children_nonempty: "[] \<notin> set (matching_children P cs i)"
  by (induction cs arbitrary: i) auto

lemma foldl_replaceNode_nonempty:
  "[] \<notin> set ps \<Longrightarrow> foldl replaceNode n ps = foldl replaceWithText n ps"
  by (induction ps arbitrary: n) (auto simp: replaceNode_def)

lemma foldl_replaceNode_matching:
  "foldl replaceNode n (matching P n) = replaceMarkers P n"
proof (induction n)
  case (Text s)
  show ?case by simp
next
  case (Elem t a cs)
  show ?case
  proof (cases "P t a")
    case True
    then show ?thesis by simp
  next
    case False
    have "foldl replaceNode (Elem t a cs) (matching_children P cs 0) =
          foldl replaceWithText (Elem t a cs) (matching_children P cs 0)"
      by (rule foldl_replaceNode_nonempty[OF matching_children_nonempty])
    also have "\<dots> = Elem t a (map (replaceMarkers P) cs)"
      using foldl_replace_children[of cs P t a "[]"] Elem by simp
    finally show ?thesis using False by simp
  qed
qed

lemma removeFragments_foldl:
  "[] \<notin> set ps \<Longrightarrow> removeFragments d ps = (foldl replaceWithText d ps, Returns ())"
  by (induction ps arbitrary: d) auto

lemma removeFragments_replaceMarkers:
  assumes "[] \<notin> set (matching P d)"
  shows "removeFragments d (matching P d) = (replaceMarkers P d, Returns ())"
  using removeFragments_foldl[OF assms] foldl_replaceNode_nonempty[OF assms, of d]
    foldl_replaceNode_matching[of d P]
  by simp

section \<open>Removing a highlight\<close>

text \<open>
  C4 (as stated): for every identifier \<open>removeHighlight\<close> replaces all markers that carry
  it by text nodes and normalizes; afterwards no element carries the identifier and the
  text content is what it was before the highlight was created; without a marker it does
  nothing. Four calls end in an exception instead. With the identifier \<open>a"b\<close> the selector
  does not parse and \<open>querySelectorAll\<close> throws. When the document element carries the
  identifier, the document cannot take the text node in its place. When the body carries
  it, the body is replaced by a text node and \<open>document.body\<close> is null at the call of
  \<open>normalize\<close>; the same holds for a document that has no body at all.
\<close>

theorem removeHighlight_counterexample:
  "removeHighlight doc_marked quoted_id = (doc_marked, Throws SyntaxError) \<and>
   removeHighlight doc_html_marked ''a1'' = (doc_html_marked, Throws HierarchyRequestError) \<and>
   removeHighlight doc_body_marked ''a1'' = (Elem ''html'' [] [Text ''x''], Throws TypeError) \<and>
   removeHighlight doc_svg_marked ''a1'' = (Elem ''svg'' [] [Text ''x''], Throws TypeError)"
proof -
  have s: "selectorSafe ''a1''" by (simp add: selectorSafe_def unsafeChar_def)
  have "removeHighlight doc_marked quoted_id = (doc_marked, Throws SyntaxError)"
    by (simp add: removeHighlight_def querySelectorAll_gogoId_def selectorSafe_def
        unsafeChar_def quoted_id_def)
  moreover have "removeHighlight doc_html_marked ''a1'' =
      (doc_html_marked, Throws HierarchyRequestError)"
    by (simp add: removeHighlight_def querySelectorAll_gogoId_def s doc_html_marked_def
        hasGogoId_def)
  moreover have "removeHighlight doc_body_marked ''a1'' =
      (Elem ''html'' [] [Text ''x''], Throws TypeError)"
    by (simp add: removeHighlight_def querySelectorAll_gogoId_def s doc_body_marked_def
        hasGogoId_def replaceWithText_def)
  moreover have "removeHighlight doc_svg_marked ''a1'' =
      (Elem ''svg'' [] [Text ''x''], Throws TypeError)"
    by (simp add: removeHighlight_def querySelectorAll_gogoId_def s doc_svg_marked_def
        hasGogoId_def replaceWithText_def createMark_def)
  ultimately show ?thesis by blast
qed

text \<open>
  C4 (amended): for an identifier without a double quote, backslash, line break or NUL
  character, in a document that has a body and in which neither the document element nor
  the body carries the identifier: \<open>removeHighlight\<close> returns normally. If no element
  carries the identifier the document is left as it is. Otherwise every element that
  carries the identifier and lies in no other such element is replaced by a text node with
  its text content, the rest of the tree is kept, and then the body is normalized (no empty
  text node, no two text nodes side by side). Afterwards no element carries the identifier,
  and the text content of the document is what it was before the call, hence what it was
  before the highlight was created, for a highlight that \<open>highlightRange\<close> made by its
  fragment loop or by the legacy wrap of a range inside one text node (the legacy wrap of
  another range is left to the platform).
\<close>

theorem removeHighlight_complete:
  assumes safe: "selectorSafe gid" and body: "bodyPath d = Some b"
    and root: "[] \<notin> set (matching (hasGogoId gid) d)"
    and bnc: "b \<notin> set (matching (hasGogoId gid) d)"
  shows "\<exists>d'. removeHighlight d gid = (d', Returns ()) \<and>
           markers d' gid = 0 \<and>
           textContent d' = textContent d \<and>
           (markers d gid = 0 \<longrightarrow> d' = d) \<and>
           (markers d gid \<noteq> 0 \<longrightarrow>
              d' = updateAt (replaceMarkers (hasGogoId gid) d) b normalize \<and>
              (\<exists>n. nodeAt d' b = Some n \<and> isNormalized n)) \<and>
           (\<forall>pf d0 r ty customId.
              valid_range d0 r \<and> (getTextNodesInRange d0 r \<noteq> [] \<or> textConfined d0 r) \<and>
              fst (highlightRange pf d0 r ty customId) = d \<longrightarrow>
              textContent d' = textContent d0)"
proof (cases "matching (hasGogoId gid) d = []")
  case True
  then have "removeHighlight d gid = (d, Returns ())"
    using safe by (simp add: removeHighlight_def querySelectorAll_gogoId_def)
  with True highlightRange_text show ?thesis by (auto simp: markers_def)
next
  case False
  let ?ps = "matching (hasGogoId gid) d"
  from removeFragments_ok[OF root, of d "hasGogoId gid"] obtain d1 where
    d1: "removeFragments d ?ps = (d1, Returns ())"
    and m1: "set (matching (hasGogoId gid) d1) \<subseteq> set ?ps - set ?ps"
    and t1: "textContent d1 = textContent d" by blast
  from removeFragments_body[OF body root bnc] d1 have b1: "bodyPath d1 = Some b" by simp
  let ?d' = "updateAt d1 b normalize"
  have r: "removeHighlight d gid = (?d', Returns ())"
    using safe False d1 b1 by (simp add: removeHighlight_def querySelectorAll_gogoId_def)
  from m1 have "matching (hasGogoId gid) d1 = []" by simp
  then have m: "markers ?d' gid = 0"
    by (simp add: markers_def updateAt_count)
  have t: "textContent ?d' = textContent d" using t1 by (simp add: updateAt_text)
  have f: "markers d gid \<noteq> 0" using False by (simp add: markers_def)
  have c: "\<forall>pf d0 r ty customId.
              valid_range d0 r \<and> (getTextNodesInRange d0 r \<noteq> [] \<or> textConfined d0 r) \<and>
              fst (highlightRange pf d0 r ty customId) = d \<longrightarrow>
              textContent ?d' = textContent d0"
    using t highlightRange_text by auto
  from bodyPath_nodeAt[OF b1] obtain n1 where "nodeAt d1 b = Some n1" by blast
  from updateAt_nodeAt[OF this, of normalize] normalize_normalized[of n1]
  have n: "\<exists>n. nodeAt ?d' b = Some n \<and> isNormalized n" by simp
  from removeFragments_replaceMarkers[OF root] d1
  have st: "d1 = replaceMarkers (hasGogoId gid) d" by simp
  from r m t f c n st show ?thesis by (intro exI[of _ ?d']) simp
qed

theorem removeHighlight_complete_witness:
  "selectorSafe ''a1'' \<and> bodyPath doc_marked = Some [1] \<and>
   matching (hasGogoId ''a1'') doc_marked = [[1, 0, 1], [1, 0, 3, 1]] \<and>
   valid_range doc_plain range_plain \<and>
   getTextNodesInRange doc_plain range_plain \<noteq> [] \<and>
   fst (highlightRange pf_demo doc_plain range_plain Agree (Some ''a1'')) = doc_marked \<and>
   removeHighlight doc_marked ''a1'' = (doc_plain, Returns ()) \<and>
   updateAt (replaceMarkers (hasGogoId ''a1'') doc_marked) [1] normalize = doc_plain \<and>
   markers doc_plain ''a1'' = 0 \<and>
   textContent doc_plain = textContent doc_marked"
proof -
  have s: "selectorSafe ''a1''" by (simp add: selectorSafe_def unsafeChar_def)
  have b: "bodyPath doc_marked = Some [1]" by (simp add: doc_marked_def)
  have m: "matching (hasGogoId ''a1'') doc_marked = [[1, 0, 1], [1, 0, 3, 1]]"
    by (simp add: doc_marked_def hasGogoId_def createMark_def)
  have v: "valid_range doc_plain range_plain"
    by (simp add: doc_plain_def range_plain_def valid_range_def valid_point_def)
  have g: "getTextNodesInRange doc_plain range_plain =
      [\<lparr>node = [1, 0, 0], fragStart = 1, fragEnd = 2\<rparr>,
       \<lparr>node = [1, 0, 1, 0], fragStart = 0, fragEnd = 2\<rparr>]"
    by (simp add: doc_plain_def range_plain_def getTextNodesInRange_def treeWalkerTextNodes_def
        commonAncestorContainer_def intersectsNode_def)
  have h: "fst (highlightRange pf_demo doc_plain range_plain Agree (Some ''a1'')) = doc_marked"
    unfolding highlightRange_def g
    by (simp add: doc_plain_def doc_marked_def pf_demo_def wrapFragment_def surroundText_def
        relocateFragment_def Let_def)
  have r: "removeHighlight doc_marked ''a1'' = (doc_plain, Returns ())"
    unfolding removeHighlight_def querySelectorAll_gogoId_def m
    by (simp add: s) (simp add: doc_marked_def doc_plain_def replaceWithText_def createMark_def)
  have r1: "[] \<notin> set (matching (hasGogoId ''a1'') doc_marked)" by (simp add: m)
  have r2: "[1] \<notin> set (matching (hasGogoId ''a1'') doc_marked)" by (simp add: m)
  have nz: "markers doc_marked ''a1'' \<noteq> 0" by (simp add: markers_def m)
  from removeHighlight_complete[OF s b r1 r2] nz obtain d' where
    d': "removeHighlight doc_marked ''a1'' = (d', Returns ())" "markers d' ''a1'' = 0"
      "textContent d' = textContent doc_marked"
      "d' = updateAt (replaceMarkers (hasGogoId ''a1'') doc_marked) [1] normalize" by blast
  with r have "markers doc_plain ''a1'' = 0" "textContent doc_plain = textContent doc_marked"
    "updateAt (replaceMarkers (hasGogoId ''a1'') doc_marked) [1] normalize = doc_plain"
    by simp_all
  with s b m v g h r show ?thesis by simp
qed

section \<open>Which exceptions leave the entry points\<close>

lemma returns_tq [simp]:
  "returns (fst (snd (case x of (d', Throws e, g) \<Rightarrow> (d', Returns False, g)
               | (d', Returns b, g) \<Rightarrow> (d', Returns b, g))))"
  by (auto split: prod.splits completion.splits)

lemma returns_hr [simp]:
  "returns (fst (snd (case x of (d', Throws e) \<Rightarrow> (d', Returns False, Some r)
               | (d', Returns None) \<Rightarrow> (d', Returns False, Some r)
               | (d', Returns (Some m)) \<Rightarrow> (d', Returns True, Some r))))"
  by (auto split: prod.splits completion.splits option.splits)

lemma restoreHighlight_returns:
  assumes safe: "selectorSafe gid"
  shows "returns (fst (snd (restoreHighlight pf d gid xp tq ty)))"
  unfolding restoreHighlight_def querySelector_markGogoId_def
  using safe by (simp split: option.split completion.split)

lemma returns_iff: "returns c \<longleftrightarrow> (\<exists>x. c = Returns x)"
  by (cases c) auto

lemma unsafeId_iff: "unsafeId gid \<longleftrightarrow> \<not> selectorSafe gid"
  by (simp add: unsafeId_def selectorSafe_def list_ex_iff list_all_iff)

lemma highlightRange_throws:
  assumes t: "snd (highlightRange pf d r ty customId) = Throws e"
  shows "effectiveId pf customId = Throws e \<or>
         (\<exists>gid. effectiveId pf customId = Returns gid \<and> getTextNodesInRange d r \<noteq> [] \<and>
                unsafeId gid \<and> e = SyntaxError) \<or>
         (\<exists>gid d'. effectiveId pf customId = Returns gid \<and> getTextNodesInRange d r = [] \<and>
                snd (extractAndInsert pf d' r (createMark ty gid [])) = Throws e)"
proof (cases "effectiveId pf customId")
  case (Throws e')
  with t show ?thesis by (simp add: highlightRange_no_id)
next
  case (Returns gid)
  note h = highlightRange_with_id[OF Returns, of d r ty]
  show ?thesis
  proof (cases "getTextNodesInRange d r = []")
    case False
    with t h have "unsafeId gid \<and> e = SyntaxError"
      by (simp add: querySelector_gogoId_def unsafeId_iff split: if_splits)
    with False Returns show ?thesis by blast
  next
    case True
    then have hl: "highlightRange pf d r ty customId = highlightRangeLegacy pf d r ty gid"
      by (simp add: h)
    obtain d1 c1 where s: "surroundContents pf d r ty gid = (d1, c1)"
      by (cases "surroundContents pf d r ty gid")
    obtain d2 c2 where x: "extractAndInsert pf d1 r (createMark ty gid []) = (d2, c2)"
      by (cases "extractAndInsert pf d1 r (createMark ty gid [])")
    from t hl s x have "c2 = Throws e"
      by (cases c1; cases c2) (simp_all add: highlightRangeLegacy_def)
    with x have "snd (extractAndInsert pf d1 r (createMark ty gid [])) = Throws e" by simp
    with True Returns show ?thesis by blast
  qed
qed

lemma removeHighlight_returns:
  assumes safe: "selectorSafe gid" and body: "bodyPath d = Some b"
    and root: "[] \<notin> set (matching (hasGogoId gid) d)"
    and bnc: "b \<notin> set (matching (hasGogoId gid) d)"
  shows "returns (snd (removeHighlight d gid))"
proof (cases "matching (hasGogoId gid) d = []")
  case True
  then show ?thesis using safe by (simp add: removeHighlight_def querySelectorAll_gogoId_def)
next
  case False
  from removeFragments_ok[OF root, of d "hasGogoId gid"] obtain d1 where
    d1: "removeFragments d (matching (hasGogoId gid) d) = (d1, Returns ())" by blast
  from removeFragments_body[OF body root bnc] d1 have "bodyPath d1 = Some b" by simp
  with d1 False safe show ?thesis
    by (simp add: removeHighlight_def querySelectorAll_gogoId_def)
qed

section \<open>Exception containment\<close>

text \<open>
  C6 (as stated): for every input, \<open>highlightRange\<close>, \<open>removeHighlight\<close> and
  \<open>restoreHighlight\<close> let no exception escape. With the identifier \<open>a"b\<close> all three
  throw a \<open>SyntaxError\<close>: \<open>removeHighlight\<close> has no \<open>try\<close> at all, \<open>restoreHighlight\<close>
  looks for an existing marker before its \<open>try\<close>, and \<open>highlightRange\<close> looks for the
  first marker after its loop. With a plain identifier \<open>removeHighlight\<close> throws when the
  document element carries the identifier, when the body carries it, and when the document
  has no body. Without a custom identifier \<open>highlightRange\<close> calls \<open>crypto.randomUUID()\<close>
  in its first statement, outside any \<open>try\<close>; where the function is missing the
  \<open>TypeError\<close> leaves \<open>highlightRange\<close>.
\<close>

theorem exceptions_counterexample:
  "\<not> selectorSafe quoted_id \<and>
   removeHighlight doc_marked quoted_id = (doc_marked, Throws SyntaxError) \<and>
   restoreHighlight pf_demo doc_plain quoted_id [] tq_demo Agree =
     (doc_plain, Throws SyntaxError, None) \<and>
   snd (highlightRange pf_demo doc_plain range_plain Agree (Some quoted_id)) = Throws SyntaxError \<and>
   snd (removeHighlight doc_html_marked ''a1'') = Throws HierarchyRequestError \<and>
   snd (removeHighlight doc_body_marked ''a1'') = Throws TypeError \<and>
   snd (removeHighlight doc_svg_marked ''a1'') = Throws TypeError \<and>
   highlightRange pf_insecure doc_plain range_plain Agree None = (doc_plain, Throws TypeError)"
proof -
  have u: "\<not> selectorSafe quoted_id"
    by (simp add: selectorSafe_def unsafeChar_def quoted_id_def)
  have s: "selectorSafe ''a1''" by (simp add: selectorSafe_def unsafeChar_def)
  have q: "quoted_id \<noteq> []" by (simp add: quoted_id_def)
  have g: "getTextNodesInRange doc_plain range_plain \<noteq> []"
    by (simp add: doc_plain_def range_plain_def getTextNodesInRange_def treeWalkerTextNodes_def
        commonAncestorContainer_def intersectsNode_def)
  have 1: "removeHighlight doc_marked quoted_id = (doc_marked, Throws SyntaxError)"
    by (simp add: removeHighlight_def querySelectorAll_gogoId_def u)
  have 2: "restoreHighlight pf_demo doc_plain quoted_id [] tq_demo Agree =
     (doc_plain, Throws SyntaxError, None)"
    by (simp add: restoreHighlight_def querySelector_markGogoId_def u)
  have 3: "snd (highlightRange pf_demo doc_plain range_plain Agree (Some quoted_id)) =
     Throws SyntaxError"
    using g q by (simp add: highlightRange_def Let_def querySelector_gogoId_def u)
  have 4: "snd (removeHighlight doc_html_marked ''a1'') = Throws HierarchyRequestError"
    by (simp add: removeHighlight_def querySelectorAll_gogoId_def s doc_html_marked_def
        hasGogoId_def)
  have 5: "snd (removeHighlight doc_body_marked ''a1'') = Throws TypeError"
    by (simp add: removeHighlight_def querySelectorAll_gogoId_def s doc_body_marked_def
        hasGogoId_def replaceWithText_def)
  have 6: "snd (removeHighlight doc_svg_marked ''a1'') = Throws TypeError"
    by (simp add: removeHighlight_def querySelectorAll_gogoId_def s doc_svg_marked_def
        hasGogoId_def replaceWithText_def createMark_def)
  have 7: "highlightRange pf_insecure doc_plain range_plain Agree None =
      (doc_plain, Throws TypeError)"
    by (simp add: highlightRange_def pf_insecure_def)
  from u 1 2 3 4 5 6 7 show ?thesis by blast
qed

text \<open>
  C6 (amended): \<open>restoreHighlight\<close>, for an identifier without a double quote, backslash,
  line break or NUL character, lets no exception escape and returns a boolean.
  \<open>highlightRange\<close> contains the exception of every fragment wrap and of the legacy
  \<open>surroundContents\<close>; an exception that leaves it is the one \<open>crypto.randomUUID()\<close>
  throws (no custom identifier), the \<open>SyntaxError\<close> of the final \<open>querySelector\<close> for an
  identifier with one of those characters (after the fragment loop), or one thrown by the
  extract-and-reinsert fallback of the legacy path, which runs inside the \<open>catch\<close> block.
  \<open>removeHighlight\<close>, for an identifier without those characters, returns normally in a
  document that has a body and in which neither the document element nor the body carries
  the identifier.
\<close>

theorem exceptions_contained:
  assumes safe: "selectorSafe gid"
  shows "(\<exists>b. fst (snd (restoreHighlight pf d gid xp tq ty)) = Returns b) \<and>
         (\<forall>e. snd (highlightRange pf d r ty customId) = Throws e \<longrightarrow>
            effectiveId pf customId = Throws e \<or>
            (\<exists>g. effectiveId pf customId = Returns g \<and> getTextNodesInRange d r \<noteq> [] \<and>
                 unsafeId g \<and> e = SyntaxError) \<or>
            (\<exists>g d'. effectiveId pf customId = Returns g \<and> getTextNodesInRange d r = [] \<and>
                 snd (extractAndInsert pf d' r (createMark ty g [])) = Throws e)) \<and>
         (\<forall>b. bodyPath d = Some b \<and> [] \<notin> set (matching (hasGogoId gid) d) \<and>
              b \<notin> set (matching (hasGogoId gid) d) \<longrightarrow>
              snd (removeHighlight d gid) = Returns ())"
proof (intro conjI allI impI)
  show "\<exists>b. fst (snd (restoreHighlight pf d gid xp tq ty)) = Returns b"
    using restoreHighlight_returns[OF safe, of pf d xp tq ty] by (simp add: returns_iff)
next
  fix e assume "snd (highlightRange pf d r ty customId) = Throws e"
  then show "effectiveId pf customId = Throws e \<or>
            (\<exists>g. effectiveId pf customId = Returns g \<and> getTextNodesInRange d r \<noteq> [] \<and>
                 unsafeId g \<and> e = SyntaxError) \<or>
            (\<exists>g d'. effectiveId pf customId = Returns g \<and> getTextNodesInRange d r = [] \<and>
                 snd (extractAndInsert pf d' r (createMark ty g [])) = Throws e)"
    by (rule highlightRange_throws)
next
  fix b assume "bodyPath d = Some b \<and> [] \<notin> set (matching (hasGogoId gid) d) \<and>
              b \<notin> set (matching (hasGogoId gid) d)"
  then have "returns (snd (removeHighlight d gid))"
    using removeHighlight_returns[OF safe] by blast
  then show "snd (removeHighlight d gid) = Returns ()" by (simp add: returns_iff)
qed

theorem exceptions_contained_witness:
  "selectorSafe ''a1'' \<and>
   bodyPath doc_marked = Some [1] \<and>
   matching (hasGogoId ''a1'') doc_marked = [[1, 0, 1], [1, 0, 3, 1]] \<and>
   restoreHighlight pf_demo doc_plain ''a1'' [] tq_demo Agree = (doc_plain, Returns False, None) \<and>
   (\<exists>b. fst (snd (restoreHighlight pf_insecure doc_plain ''a1'' xp_demo tq_demo Agree)) =
         Returns b) \<and>
   snd (removeHighlight doc_marked ''a1'') = Returns () \<and>
   snd (highlightRange pf_insecure doc_plain range_plain Agree None) = Throws TypeError \<and>
   effectiveId pf_insecure None = Throws TypeError \<and>
   highlightRange pf_demo doc_plain range_plain Agree (Some ''a1'') =
     (doc_marked, Returns (Some [1, 0, 1]))"
proof -
  have s: "selectorSafe ''a1''" by (simp add: selectorSafe_def unsafeChar_def)
  have b: "bodyPath doc_marked = Some [1]" by (simp add: doc_marked_def)
  have m: "matching (hasGogoId ''a1'') doc_marked = [[1, 0, 1], [1, 0, 3, 1]]"
    by (simp add: doc_marked_def hasGogoId_def createMark_def)
  have r: "restoreHighlight pf_demo doc_plain ''a1'' [] tq_demo Agree =
      (doc_plain, Returns False, None)"
    by (simp add: restoreHighlight_def querySelector_markGogoId_def s evaluate_def
        doc_plain_def isMarkWithGogoId_def firstOf_def)
  have c: "bodyPath doc_marked = Some [1] \<and> [] \<notin> set (matching (hasGogoId ''a1'') doc_marked) \<and>
      [1] \<notin> set (matching (hasGogoId ''a1'') doc_marked)"
    by (simp add: b m)
  note th = exceptions_contained[OF s, where pf = pf_insecure and d = doc_marked
      and xp = xp_demo and tq = tq_demo and ty = Agree and r = range_plain and customId = None]
  from th c have x: "snd (removeHighlight doc_marked ''a1'') = Returns ()" by blast
  note th2 = exceptions_contained[OF s, where pf = pf_insecure and d = doc_plain
      and xp = xp_demo and tq = tq_demo and ty = Agree and r = range_plain and customId = None]
  from th2 have y: "\<exists>b. fst (snd (restoreHighlight pf_insecure doc_plain ''a1'' xp_demo
      tq_demo Agree)) = Returns b" by blast
  have t: "snd (highlightRange pf_insecure doc_plain range_plain Agree None) = Throws TypeError"
    by (simp add: highlightRange_def pf_insecure_def)
  have g: "getTextNodesInRange doc_plain range_plain \<noteq> []"
    by (simp add: doc_plain_def range_plain_def getTextNodesInRange_def treeWalkerTextNodes_def
        commonAncestorContainer_def intersectsNode_def)
  from th2 t have "effectiveId pf_insecure None = Throws TypeError \<or>
      (\<exists>g. effectiveId pf_insecure None = Returns g \<and>
           getTextNodesInRange doc_plain range_plain \<noteq> [] \<and> unsafeId g \<and>
           TypeError = SyntaxError) \<or>
      (\<exists>g d'. effectiveId pf_insecure None = Returns g \<and>
           getTextNodesInRange doc_plain range_plain = [] \<and>
           snd (extractAndInsert pf_insecure d' range_plain (createMark Agree g [])) =
             Throws TypeError)" by blast
  with g have e: "effectiveId pf_insecure None = Throws TypeError" by auto
  have gp: "getTextNodesInRange doc_plain range_plain =
      [\<lparr>node = [1, 0, 0], fragStart = 1, fragEnd = 2\<rparr>,
       \<lparr>node = [1, 0, 1, 0], fragStart = 0, fragEnd = 2\<rparr>]"
    by (simp add: doc_plain_def range_plain_def getTextNodesInRange_def treeWalkerTextNodes_def
        commonAncestorContainer_def intersectsNode_def)
  have h: "highlightRange pf_demo doc_plain range_plain Agree (Some ''a1'') =
     (doc_marked, Returns (Some [1, 0, 1]))"
    unfolding highlightRange_def gp
    by (simp add: doc_plain_def doc_marked_def pf_demo_def wrapFragment_def surroundText_def
        relocateFragment_def Let_def querySelector_gogoId_def s hasGogoId_def createMark_def
        firstOf_def)
  from s b m r x y t e h show ?thesis by blast
qed

section \<open>Restoring a highlight twice\<close>

lemma findIn_zero:
  "findIn b c T = Some (q, 0) \<Longrightarrow> \<exists>s B. T = (q, s) # B \<and> b = c"
proof (induction T arbitrary: c)
  case Nil
  then show ?case by simp
next
  case (Cons x T)
  obtain p s where x: "x = (p, s)" by (cases x)
  show ?case
  proof (cases "c \<le> b \<and> b \<le> c + length s")
    case True
    with Cons.prems x show ?thesis by auto
  next
    case False
    with Cons.prems x have "findIn b (c + length s) T = Some (q, 0)" by simp
    from Cons.IH[OF this] have "b = c + length s" by blast
    with False show ?thesis by simp
  qed
qed

lemma find_second_positive:
  assumes a: "findTextNodeAtOffset n a = Some (q1, k1)"
    and b: "findTextNodeAtOffset n b = Some (q2, k2)" and le: "a \<le> b" and ne: "q1 \<noteq> q2"
  shows "0 < k2"
proof (rule ccontr)
  assume "\<not> 0 < k2"
  then have k: "k2 = 0" by simp
  from b k have "findIn b 0 (textNodes n) = Some (q2, 0)"
    by (simp add: findTextNodeAtOffset_findIn)
  from findIn_zero[OF this] obtain s B where T: "textNodes n = (q2, s) # B" and b0: "b = 0"
    by blast
  from le b0 have "a = 0" by simp
  with a T have "q1 = q2" by (simp add: findTextNodeAtOffset_findIn)
  with ne show False by simp
qed

lemma built_range:
  assumes n: "nodeAt d np = Some n"
    and a: "findTextNodeAtOffset n a = Some (q1, k1)"
    and b: "findTextNodeAtOffset n b = Some (q2, k2)" and le: "a \<le> b"
  defines "r \<equiv> \<lparr>startContainer = np @ q1, startOffset = k1,
                 endContainer = np @ q2, endOffset = k2\<rparr>"
  shows "createRange d (np @ q1) k1 (np @ q2) k2 = Returns r"
    and "valid_range d r"
    and "range_toString d r = drop a (take b (textContent n))"
    and "textData d (startContainer r) \<noteq> None"
    and "q1 = q2 \<or> getTextNodesInRange d r \<noteq> []"
proof -
  let ?r0 = "\<lparr>startContainer = q1, startOffset = k1, endContainer = q2, endOffset = k2\<rparr>"
  have sh: "r = shiftRange np ?r0" by (simp add: r_def shiftRange_def)
  note v0 = restored_range(1)[OF a b le]
  show vr: "valid_range d r" unfolding sh using v0 by (simp add: valid_range_shift[OF n])
  show "range_toString d r = drop a (take b (textContent n))"
    unfolding sh using range_toString_shift[OF n v0] restored_range(2)[OF a b le] by simp
  from vr have vp: "valid_point d (np @ q1) k1" "valid_point d (np @ q2) k2"
    and ord: "position (np @ q1) k1 (np @ q2) k2 \<noteq> After"
    by (simp_all add: valid_range_def r_def)
  from ord have "position (np @ q2) k2 (np @ q1) k1 \<noteq> Before"
    by (simp add: position_lex)
  with vp show "createRange d (np @ q1) k1 (np @ q2) k2 = Returns r"
    by (simp add: createRange_def r_def)
  from find_text_node[OF a] obtain s1 where s1: "nodeAt n q1 = Some (Text s1)" by blast
  from find_text_node[OF b] obtain s2 where s2: "nodeAt n q2 = Some (Text s2)" by blast
  have t1: "nodeAt d (np @ q1) = Some (Text s1)" using n s1 by (simp add: nodeAt_append)
  have t2: "nodeAt d (np @ q2) = Some (Text s2)" using n s2 by (simp add: nodeAt_append)
  show "textData d (startContainer r) \<noteq> None" using t1 by (simp add: textData_def r_def)
  show "q1 = q2 \<or> getTextNodesInRange d r \<noteq> []"
  proof (cases "q1 = q2")
    case True
    then show ?thesis by simp
  next
    case False
    then have nst: "\<not> singleTextNode d r" by (simp add: singleTextNode_def r_def)
    have q0: "np @ q2 \<noteq> []" by (rule not_single_nonroot[OF vr nst t2])
    have i: "intersectsNode r (np @ q2)"
      using intersects_text_node[OF vr t2 q0] by (simp add: r_def)
    have k: "0 < k2" by (rule find_second_positive[OF a b le False])
    have x: "(np @ q2, s2) \<in> set (textNodes d)" using t2 by (simp add: textNodes_nodeAt(1))
    have ne: "nonEmpty (clipFragment r (np @ q2, s2))"
      using False k by (simp add: nonEmpty_def clipFragment_def r_def)
    from x i ne have "(np @ q2, s2) \<in> set (filter (\<lambda>x. intersectsNode r (fst x) \<and>
        nonEmpty (clipFragment r x)) (textNodes d))" by simp
    then have "filter (\<lambda>x. intersectsNode r (fst x) \<and>
        nonEmpty (clipFragment r x)) (textNodes d) \<noteq> []" by (metis empty_iff list.set(1))
    then show ?thesis unfolding getTextNodesInRange_filter[OF vr nst] by simp
  qed
qed

lemma bodyPath_Elem: "bodyPath d = Some b \<Longrightarrow> \<not> isText d \<and> b \<noteq> []"
  by (cases d) (auto split: if_splits)

lemma highlight_marks:
  assumes vr: "valid_range d r" and td: "textData d (startContainer r) \<noteq> None"
    and conf: "startContainer r = endContainer r \<or> getTextNodesInRange d r \<noteq> []"
    and nt: "\<not> isText d" and g0: "gid \<noteq> []"
  shows "hasMark (fst (highlightRange pf d r ty (Some gid))) gid \<or>
         fst (highlightRange pf d r ty (Some gid)) = d"
proof (cases "getTextNodesInRange d r = []")
  case True
  with conf have e: "endContainer r = startContainer r" by simp
  from td obtain s where s: "nodeAt d (startContainer r) = Some (Text s)"
    unfolding textData_def by (auto split: option.splits node.splits)
  have n0: "startContainer r \<noteq> []"
  proof
    assume "startContainer r = []"
    with s nt show False by simp
  qed
  have tds: "textData d (startContainer r) = Some s" using s by (simp add: textData_def)
  have sc: "surroundContents pf d r ty gid =
      (surroundText d (startContainer r) s (startOffset r) (endOffset r) ty gid,
       Returns (markPath (startContainer r)))"
    unfolding surroundContents_def tds using e n0 by simp
  have h: "fst (highlightRange pf d r ty (Some gid)) =
      surroundText d (startContainer r) s (startOffset r) (endOffset r) ty gid"
    using True by (simp add: highlightRange_with_id[OF effectiveId_custom[OF g0]]
        highlightRangeLegacy_def sc)
  have "length (matching (isMarkWithGogoId gid)
      (surroundText d (startContainer r) s (startOffset r) (endOffset r) ty gid)) =
      length (matching (isMarkWithGogoId gid) d) + 1"
    using surroundText_count[OF s n0, of "isMarkWithGogoId gid"]
    by (simp add: isMarkWithGogoId_def)
  then have "matching (isMarkWithGogoId gid)
      (surroundText d (startContainer r) s (startOffset r) (endOffset r) ty gid) \<noteq> []"
    by auto
  then show ?thesis unfolding h hasMark_def by simp
next
  case False
  let ?fs = "getTextNodesInRange d r"
  have h: "fst (highlightRange pf d r ty (Some gid)) = wrapAll pf d ty gid 0 ?fs"
    using False by (simp add: highlightRange_with_id[OF effectiveId_custom[OF g0]])
  show ?thesis
  proof (cases "wrapped pf 0 (length ?fs) = 0")
    case True
    from wrapAll_all_fault[OF True] show ?thesis unfolding h by simp
  next
    case nz: False
    have "length (matching (isMarkWithGogoId gid) (wrapAll pf d ty gid 0 ?fs)) =
        length (matching (isMarkWithGogoId gid) d) + wrapped pf 0 (length ?fs)"
      using wrapAll_count[OF fragsOk_getTextNodesInRange[OF vr], of "isMarkWithGogoId gid"]
      by (simp add: isMarkWithGogoId_def)
    with nz have "matching (isMarkWithGogoId gid) (wrapAll pf d ty gid 0 ?fs) \<noteq> []" by auto
    then show ?thesis unfolding h hasMark_def by simp
  qed
qed

lemma found_marks:
  assumes n: "nodeAt d np = Some n" and nt: "\<not> isText d" and g0: "gid \<noteq> []"
    and a: "findTextNodeAtOffset n a = Some (q1, k1)"
    and b: "findTextNodeAtOffset n (a + len) = Some (q2, k2)"
    and c: "createRange d (np @ q1) k1 (np @ q2) k2 = Returns r"
  shows "hasMark (fst (highlightRange pf d r ty (Some gid))) gid \<or>
         fst (highlightRange pf d r ty (Some gid)) = d"
proof -
  have le: "a \<le> a + len" by simp
  note br = built_range[OF n a b le]
  from br(1) c have r: "r = \<lparr>startContainer = np @ q1, startOffset = k1,
                 endContainer = np @ q2, endOffset = k2\<rparr>" by simp
  have conf: "startContainer r = endContainer r \<or> getTextNodesInRange d r \<noteq> []"
    using br(5) unfolding r by auto
  show ?thesis
    by (rule highlight_marks[OF br(2)[folded r] br(4)[folded r] conf nt g0])
qed

lemma findAndHighlightText_marks:
  assumes g0: "gid \<noteq> []"
  shows "hasMark (fst (findAndHighlightText pf d txt gid ty off)) gid \<or>
         fst (findAndHighlightText pf d txt gid ty off) = d"
proof (cases "bodyPath d")
  case None
  then show ?thesis by (simp add: findAndHighlightText_def)
next
  case (Some b)
  note nt = bodyPath_Elem[OF Some]
  show ?thesis
  proof (cases "nodeAt d b")
    case None
    with Some show ?thesis by (simp add: findAndHighlightText_def)
  next
    case body: (Some n)
    show ?thesis
    proof (cases "findTextNodeAtOffset n off")
      case None
      with Some body show ?thesis by (simp add: findAndHighlightText_def)
    next
      case si: (Some startInfo)
      show ?thesis
      proof (cases "findTextNodeAtOffset n (off + length txt)")
        case None
        with Some body si show ?thesis by (simp add: findAndHighlightText_def)
      next
        case ei: (Some endInfo)
        show ?thesis
        proof (cases "createRange d (b @ fst startInfo) (snd startInfo)
                        (b @ fst endInfo) (snd endInfo)")
          case (Throws e)
          with Some body si ei show ?thesis by (simp add: findAndHighlightText_def)
        next
          case (Returns r)
          have a: "findTextNodeAtOffset n off = Some (fst startInfo, snd startInfo)"
            using si by simp
          have bb: "findTextNodeAtOffset n (off + length txt) = Some (fst endInfo, snd endInfo)"
            using ei by simp
          from found_marks[OF body conjunct1[OF nt] g0 a bb Returns, of pf ty]
          have "hasMark (fst (highlightRange pf d r ty (Some gid))) gid \<or>
                fst (highlightRange pf d r ty (Some gid)) = d" .
          moreover have "fst (findAndHighlightText pf d txt gid ty off) =
              fst (highlightRange pf d r ty (Some gid))"
            using Some body si ei Returns
            by (simp add: findAndHighlightText_def
                split: prod.splits completion.splits option.splits)
          ultimately show ?thesis by simp
        qed
      qed
    qed
  qed
qed

lemma restoreByTextQuote_marks:
  assumes g0: "gid \<noteq> []"
  shows "hasMark (fst (restoreByTextQuote pf d gid tq ty)) gid \<or>
         fst (restoreByTextQuote pf d gid tq ty) = d"
proof -
  have "\<And>off. fst (case findAndHighlightText pf d (exact tq) gid ty off of
            (d', b, g) \<Rightarrow> (d', Returns b, g)) =
        fst (findAndHighlightText pf d (exact tq) gid ty off)"
    by (simp split: prod.splits)
  then show ?thesis
    using findAndHighlightText_marks[OF g0, of pf d "exact tq" ty]
    by (simp add: restoreByTextQuote_def Let_def split: option.splits)
qed

lemma restoreHighlight_marks:
  assumes g0: "gid \<noteq> []"
  shows "hasMark (fst (restoreHighlight pf d gid xp tq ty)) gid \<or>
         fst (restoreHighlight pf d gid xp tq ty) = d"
proof -
  have tqc: "fst (case restoreByTextQuote pf d gid tq ty of
                  (d', Throws e, g) \<Rightarrow> (d', Returns False, g)
                | (d', Returns b, g) \<Rightarrow> (d', Returns b, g)) =
             fst (restoreByTextQuote pf d gid tq ty)"
    by (simp split: prod.splits completion.splits)
  note tqm = restoreByTextQuote_marks[OF g0, of pf d tq ty]
  show ?thesis
  proof (cases "querySelector_markGogoId d gid")
    case (Throws e)
    then show ?thesis by (simp add: restoreHighlight_def)
  next
    case (Returns ex)
    show ?thesis
    proof (cases ex)
      case (Some m)
      with Returns show ?thesis by (simp add: restoreHighlight_def)
    next
      case None
      show ?thesis
      proof (cases "evaluate d xp")
        case (Throws e)
        with Returns None show ?thesis by (simp add: restoreHighlight_def)
      next
        case ev: (Returns res)
        show ?thesis
        proof (cases res)
          case rn: None
          with Returns None ev tqm tqc show ?thesis by (simp add: restoreHighlight_def)
        next
          case (Some np)
          have nt: "\<not> isText d"
            using ev Some by (cases d) (auto simp: evaluate_def split: list.splits)
          show ?thesis
          proof (cases "nodeAt d np")
            case nn: None
            with Returns None ev Some show ?thesis by (simp add: restoreHighlight_def)
          next
            case node: (Some n)
            show ?thesis
            proof (cases "indexOf (textContent n) (exact tq)")
              case i: None
              with Returns None ev Some node tqm tqc show ?thesis
                by (simp add: restoreHighlight_def)
            next
              case i: (Some index)
              show ?thesis
              proof (cases "findTextNodeAtOffset n index")
                case si: None
                with Returns None ev Some node i show ?thesis
                  by (simp add: restoreHighlight_def)
              next
                case si: (Some startInfo)
                show ?thesis
                proof (cases "findTextNodeAtOffset n (index + length (exact tq))")
                  case ei: None
                  with Returns None ev Some node i si show ?thesis
                    by (simp add: restoreHighlight_def)
                next
                  case ei: (Some endInfo)
                  show ?thesis
                  proof (cases "createRange d (np @ fst startInfo) (snd startInfo)
                        (np @ fst endInfo) (snd endInfo)")
                    case cr: (Throws e)
                    with Returns None ev Some node i si ei show ?thesis
                      by (simp add: restoreHighlight_def)
                  next
                    case cr: (Returns r)
                    have a: "findTextNodeAtOffset n index = Some (fst startInfo, snd startInfo)"
                      using si by simp
                    have bb: "findTextNodeAtOffset n (index + length (exact tq)) =
                        Some (fst endInfo, snd endInfo)" using ei by simp
                    have "fst (restoreHighlight pf d gid xp tq ty) =
                        fst (highlightRange pf d r ty (Some gid))"
                      using Returns None ev Some node i si ei cr
                      by (simp add: restoreHighlight_def
                          split: prod.splits completion.splits option.splits)
                    with found_marks[OF node nt g0 a bb cr, of pf ty] show ?thesis by simp
                  qed
                qed
              qed
            qed
          qed
        qed
      qed
    qed
  qed
qed

lemma restoreHighlight_guard:
  assumes safe: "selectorSafe gid" and m: "hasMark d gid"
  shows "restoreHighlight pf d gid xp tq ty = (d, Returns True, None)"
proof -
  from m obtain p ps where "matching (isMarkWithGogoId gid) d = p # ps"
    unfolding hasMark_def by (cases "matching (isMarkWithGogoId gid) d") auto
  then show ?thesis
    using safe by (simp add: restoreHighlight_def querySelector_markGogoId_def firstOf_def)
qed

section \<open>Idempotent restoration\<close>

lemma restore_plain_a1:
  "restoreHighlight pf_demo doc_plain ''a1'' xp_demo tq_demo Agree =
     (doc_marked, Returns True, Some range_plain)"
  by code_simp

lemma restore_plain_empty:
  "markCount (fst (restoreHighlight pf_demo doc_plain [] xp_demo tq_demo Agree)) = 2"
  by code_simp

lemma restore_plain_empty_twice:
  "markCount (fst (restoreHighlight pf_next
      (fst (restoreHighlight pf_demo doc_plain [] xp_demo tq_demo Agree))
      [] xp_demo tq_demo Agree)) = 4"
  by code_simp

text \<open>
  C3 (as stated): for every identifier, if a marker with the identifier exists then
  \<open>restoreHighlight\<close> returns success without a mutation, and two calls with the same
  descriptor and identifier leave one set of markers. The document \<open>doc_quoted\<close> has a
  marker with the identifier \<open>a"b\<close>; the selector of the first statement of
  \<open>restoreHighlight\<close> does not parse and the call throws a \<open>SyntaxError\<close>. With the empty
  identifier the first statement finds no marker, \<open>highlightRange\<close> takes the empty custom
  identifier for a missing one and marks the fragments with a fresh identifier: the first
  call leaves two mark elements, and the second call, which finds no marker with the empty
  identifier either, leaves four.
\<close>

theorem restoreHighlight_counterexample:
  "hasMark doc_quoted quoted_id \<and>
   restoreHighlight pf_demo doc_quoted quoted_id xp_demo tq_demo Agree =
     (doc_quoted, Throws SyntaxError, None) \<and>
   markCount doc_plain = 0 \<and>
   fst (snd (restoreHighlight pf_demo doc_plain [] xp_demo tq_demo Agree)) = Returns True \<and>
   markCount (fst (restoreHighlight pf_demo doc_plain [] xp_demo tq_demo Agree)) = 2 \<and>
   fst (snd (restoreHighlight pf_next
      (fst (restoreHighlight pf_demo doc_plain [] xp_demo tq_demo Agree))
      [] xp_demo tq_demo Agree)) = Returns True \<and>
   markCount (fst (restoreHighlight pf_next
      (fst (restoreHighlight pf_demo doc_plain [] xp_demo tq_demo Agree))
      [] xp_demo tq_demo Agree)) = 4"
proof -
  have 1: "hasMark doc_quoted quoted_id"
    by (simp add: hasMark_def doc_quoted_def createMark_def isMarkWithGogoId_def)
  have u: "\<not> selectorSafe quoted_id"
    by (simp add: selectorSafe_def unsafeChar_def quoted_id_def)
  have 2: "restoreHighlight pf_demo doc_quoted quoted_id xp_demo tq_demo Agree =
     (doc_quoted, Throws SyntaxError, None)"
    by (simp add: restoreHighlight_def querySelector_markGogoId_def u)
  have 3: "markCount doc_plain = 0" by (simp add: markCount_def doc_plain_def)
  have 4: "fst (snd (restoreHighlight pf_demo doc_plain [] xp_demo tq_demo Agree)) =
      Returns True" by code_simp
  have 5: "fst (snd (restoreHighlight pf_next
      (fst (restoreHighlight pf_demo doc_plain [] xp_demo tq_demo Agree))
      [] xp_demo tq_demo Agree)) = Returns True" by code_simp
  from 1 2 3 4 5 restore_plain_empty restore_plain_empty_twice show ?thesis by blast
qed

text \<open>
  C3 (amended): for every identifier without a double quote, backslash, line break or NUL
  character, every descriptor and every type: if a mark element that carries the identifier
  exists, \<open>restoreHighlight\<close> returns success and leaves the document as it is. For such
  an identifier that is not empty, a call of \<open>restoreHighlight\<close> that changes the document
  leaves a mark element that carries the identifier, so that every later call with the
  identifier returns success and changes nothing; calling restore twice with the same
  descriptor and identifier leaves the document as the first call left it, with one set of
  markers and not two.
\<close>

theorem restoreHighlight_idempotent:
  assumes safe: "selectorSafe gid"
  shows "(hasMark d gid \<longrightarrow> restoreHighlight pf d gid xp tq ty = (d, Returns True, None)) \<and>
         (gid \<noteq> [] \<longrightarrow>
            (fst (restoreHighlight pf d gid xp tq ty) \<noteq> d \<longrightarrow>
               hasMark (fst (restoreHighlight pf d gid xp tq ty)) gid \<and>
               (\<forall>pf' xp' tq' ty'.
                  restoreHighlight pf' (fst (restoreHighlight pf d gid xp tq ty)) gid xp' tq' ty' =
                    (fst (restoreHighlight pf d gid xp tq ty), Returns True, None))) \<and>
            fst (restoreHighlight pf (fst (restoreHighlight pf d gid xp tq ty)) gid xp tq ty) =
              fst (restoreHighlight pf d gid xp tq ty))"
proof (intro conjI impI allI)
  assume "hasMark d gid"
  then show "restoreHighlight pf d gid xp tq ty = (d, Returns True, None)"
    by (rule restoreHighlight_guard[OF safe])
next
  assume g0: "gid \<noteq> []" and ch: "fst (restoreHighlight pf d gid xp tq ty) \<noteq> d"
  from restoreHighlight_marks[OF g0, of pf d xp tq ty] ch
  show "hasMark (fst (restoreHighlight pf d gid xp tq ty)) gid" by simp
next
  fix pf' xp' tq' ty'
  assume g0: "gid \<noteq> []" and ch: "fst (restoreHighlight pf d gid xp tq ty) \<noteq> d"
  from restoreHighlight_marks[OF g0, of pf d xp tq ty] ch
  have "hasMark (fst (restoreHighlight pf d gid xp tq ty)) gid" by simp
  then show "restoreHighlight pf' (fst (restoreHighlight pf d gid xp tq ty)) gid xp' tq' ty' =
      (fst (restoreHighlight pf d gid xp tq ty), Returns True, None)"
    by (rule restoreHighlight_guard[OF safe])
next
  assume g0: "gid \<noteq> []"
  show "fst (restoreHighlight pf (fst (restoreHighlight pf d gid xp tq ty)) gid xp tq ty) =
      fst (restoreHighlight pf d gid xp tq ty)"
  proof (cases "fst (restoreHighlight pf d gid xp tq ty) = d")
    case True
    then show ?thesis by simp
  next
    case False
    with restoreHighlight_marks[OF g0, of pf d xp tq ty]
    have "hasMark (fst (restoreHighlight pf d gid xp tq ty)) gid" by simp
    from restoreHighlight_guard[OF safe this, of pf xp tq ty] show ?thesis by simp
  qed
qed

theorem restoreHighlight_idempotent_witness:
  "selectorSafe ''a1'' \<and>
   restoreHighlight pf_demo doc_plain ''a1'' xp_demo tq_demo Agree =
     (doc_marked, Returns True, Some range_plain) \<and>
   doc_marked \<noteq> doc_plain \<and>
   hasMark doc_marked ''a1'' \<and>
   restoreHighlight pf_next doc_marked ''a1'' xp_demo tq_demo Agree =
     (doc_marked, Returns True, None) \<and>
   restoreHighlight pf_demo doc_marked ''a1'' [] tq_demo Question =
     (doc_marked, Returns True, None) \<and>
   markCount doc_marked = 2"
proof -
  have s: "selectorSafe ''a1''" by (simp add: selectorSafe_def unsafeChar_def)
  have g: "''a1'' \<noteq> []" by simp
  note r = restore_plain_a1
  have f: "fst (restoreHighlight pf_demo doc_plain ''a1'' xp_demo tq_demo Agree) = doc_marked"
    by (simp add: r)
  have n: "doc_marked \<noteq> doc_plain" by (simp add: doc_marked_def doc_plain_def)
  have c: "markCount doc_marked = 2"
    by (simp add: markCount_def doc_marked_def createMark_def)
  note th = restoreHighlight_idempotent[OF s, of doc_plain pf_demo xp_demo tq_demo Agree]
  from th g n have h: "hasMark doc_marked ''a1''" unfolding f by blast
  from th g n have a: "\<forall>pf' xp' tq' ty'.
      restoreHighlight pf' doc_marked ''a1'' xp' tq' ty' = (doc_marked, Returns True, None)"
    unfolding f by blast
  from a have a1: "restoreHighlight pf_next doc_marked ''a1'' xp_demo tq_demo Agree =
     (doc_marked, Returns True, None)" by blast
  from a have a2: "restoreHighlight pf_demo doc_marked ''a1'' [] tq_demo Question =
     (doc_marked, Returns True, None)" by blast
  from s r n h a1 a2 c show ?thesis by blast
qed

section \<open>Round trip of a descriptor\<close>

lemma wrapped_nofault:
  "\<forall>k. wrapFault pf k = None \<Longrightarrow> wrapped pf k n = n"
  by (simp add: wrapped_def)

lemma highlight_success:
  assumes vr: "valid_range d r" and td: "textData d (startContainer r) \<noteq> None"
    and conf: "startContainer r = endContainer r \<or> getTextNodesInRange d r \<noteq> []"
    and nt: "\<not> isText d" and eff: "effectiveId pf customId = Returns g"
    and safe: "selectorSafe g" and nofault: "\<forall>k. wrapFault pf k = None"
  shows "\<exists>d' m. highlightRange pf d r ty customId = (d', Returns (Some m))"
proof (cases "getTextNodesInRange d r = []")
  case True
  with conf have e: "endContainer r = startContainer r" by simp
  from td obtain s where s: "nodeAt d (startContainer r) = Some (Text s)"
    unfolding textData_def by (auto split: option.splits node.splits)
  have n0: "startContainer r \<noteq> []"
  proof
    assume "startContainer r = []"
    with s nt show False by simp
  qed
  have tds: "textData d (startContainer r) = Some s" using s by (simp add: textData_def)
  have sc: "surroundContents pf d r ty g =
      (surroundText d (startContainer r) s (startOffset r) (endOffset r) ty g,
       Returns (markPath (startContainer r)))"
    unfolding surroundContents_def tds using e n0 by simp
  have "highlightRange pf d r ty customId =
      (surroundText d (startContainer r) s (startOffset r) (endOffset r) ty g,
       Returns (Some (markPath (startContainer r))))"
    using True by (simp add: highlightRange_with_id[OF eff] highlightRangeLegacy_def sc)
  then show ?thesis by blast
next
  case False
  let ?fs = "getTextNodesInRange d r"
  let ?d = "wrapAll pf d ty g 0 ?fs"
  have h: "highlightRange pf d r ty customId =
      (?d, Returns (firstOf (matching (hasGogoId g) ?d)))"
    using False safe by (simp add: highlightRange_with_id[OF eff] querySelector_gogoId_def)
  have "length (matching (hasGogoId g) ?d) =
      length (matching (hasGogoId g) d) + wrapped pf 0 (length ?fs)"
    using wrapAll_count[OF fragsOk_getTextNodesInRange[OF vr], of "hasGogoId g" pf ty g 0]
    by (simp add: hasGogoId_def)
  with False have "matching (hasGogoId g) ?d \<noteq> []"
    by (auto simp: wrapped_nofault[OF nofault])
  then obtain m where "firstOf (matching (hasGogoId g) ?d) = Some m"
    by (cases "firstOf (matching (hasGogoId g) ?d)") auto
  with h show ?thesis by simp
qed

lemma slice_occurs:
  assumes e: "ex = drop a (take b T)" and ne: "ex \<noteq> []"
  shows "take (length ex) (drop a T) = ex \<and> a \<le> length T"
proof -
  have d: "drop a (take b T) = take (b - a) (drop a T)" by (simp add: drop_take)
  from e d have x: "ex = take (b - a) (drop a T)" by simp
  have "take (length ex) (drop a T) = ex" unfolding x by (simp add: min_def)
  moreover from ne x have "a \<le> length T" by (cases "a \<le> length T") auto
  ultimately show ?thesis by simp
qed

lemma slice_bound:
  assumes s: "drop off (take (off + length ex) T) = ex" and ne: "ex \<noteq> []"
  shows "off + length ex \<le> length T"
proof -
  from s have "length (drop off (take (off + length ex) T)) = length ex" by simp
  then have m: "min (length T) (off + length ex) - off = length ex" by simp
  define L where "L = length ex"
  from ne have p: "0 < L" by (simp add: L_def)
  from m have "min (length T) (off + L) - off = L" by (simp add: L_def)
  with p have "off + L \<le> length T" by arith
  then show ?thesis by (simp add: L_def)
qed

lemma pattern_slice:
  assumes i: "indexOf T (pre @ ex @ suf) = Some j"
  shows "drop (j + length pre) (take (j + length pre + length ex) T) = ex"
proof -
  from indexOf_Some[OF i] have t: "take (length (pre @ ex @ suf)) (drop j T) = pre @ ex @ suf"
    by simp
  have "drop j T = take (length (pre @ ex @ suf)) (drop j T) @
      drop (length (pre @ ex @ suf)) (drop j T)"
    by (rule append_take_drop_id[symmetric])
  then obtain rest where dr: "drop j T = pre @ ex @ suf @ rest" unfolding t by simp
  have "drop (j + length pre) T = drop (length pre) (drop j T)" by (simp add: add.commute)
  also have "\<dots> = ex @ suf @ rest" unfolding dr by simp
  finally have d2: "drop (j + length pre) T = ex @ suf @ rest" .
  have "drop (j + length pre) (take (j + length pre + length ex) T) =
      take (length ex) (drop (j + length pre) T)" by (simp add: drop_take)
  also have "\<dots> = ex" unfolding d2 by simp
  finally show ?thesis .
qed

lemma body_range_text:
  assumes vr: "valid_range d r" and bn: "nodeAt d b = Some n"
    and sb: "isPrefix b (startContainer r)" and eb: "isPrefix b (endContainer r)"
  shows "\<exists>a c. range_toString d r = drop a (take c (textContent n))"
proof -
  from sb eb obtain sp ep where sp: "startContainer r = b @ sp" and ep: "endContainer r = b @ ep"
    by (auto simp: isPrefix_iff)
  let ?r0 = "\<lparr>startContainer = sp, startOffset = startOffset r,
              endContainer = ep, endOffset = endOffset r\<rparr>"
  have sh: "r = shiftRange b ?r0" using sp ep by (simp add: shiftRange_def)
  from vr have "valid_range d (shiftRange b ?r0)" using sh by simp
  then have v0: "valid_range n ?r0" by (simp add: valid_range_shift[OF bn])
  have "range_toString d r = range_toString d (shiftRange b ?r0)" using sh by simp
  also have "\<dots> = range_toString n ?r0" by (rule range_toString_shift[OF bn v0])
  also note range_toString_global[OF v0]
  finally show ?thesis by blast
qed

lemma located_success:
  assumes n: "nodeAt d np = Some n" and nt: "\<not> isText d"
    and slice: "drop off (take (off + length ex) (textContent n)) = ex" and ne: "ex \<noteq> []"
    and eff: "effectiveId pf customId = Returns g"
    and safe: "selectorSafe g" and nofault: "\<forall>k. wrapFault pf k = None"
  shows "\<exists>q1 k1 q2 k2 r' d' m.
      findTextNodeAtOffset n off = Some (q1, k1) \<and>
      findTextNodeAtOffset n (off + length ex) = Some (q2, k2) \<and>
      createRange d (np @ q1) k1 (np @ q2) k2 = Returns r' \<and>
      valid_range d r' \<and> range_toString d r' = ex \<and>
      highlightRange pf d r' ty customId = (d', Returns (Some m))"
proof -
  note bnd = slice_bound[OF slice ne]
  from bnd ne have "textContent n \<noteq> []" by auto
  then have T: "textNodes n \<noteq> []" using concat_textNodes(1)[of n] by auto
  have l: "textLen (textNodes n) = length (textContent n)" by (rule textLen_textNodes(1))
  from findIn_exists[OF T, of 0 off] bnd l obtain q1 k1 where
    a: "findTextNodeAtOffset n off = Some (q1, k1)"
    by (auto simp: findTextNodeAtOffset_findIn)
  from findIn_exists[OF T, of 0 "off + length ex"] bnd l obtain q2 k2 where
    b: "findTextNodeAtOffset n (off + length ex) = Some (q2, k2)"
    by (auto simp: findTextNodeAtOffset_findIn)
  have le: "off \<le> off + length ex" by simp
  let ?r = "\<lparr>startContainer = np @ q1, startOffset = k1,
             endContainer = np @ q2, endOffset = k2\<rparr>"
  note br = built_range[OF n a b le]
  have ts: "range_toString d ?r = ex" using br(3) slice by simp
  have conf: "startContainer ?r = endContainer ?r \<or> getTextNodesInRange d ?r \<noteq> []"
    using br(5) by auto
  from highlight_success[OF br(2) br(4) conf nt eff safe nofault, of ty]
  obtain d' m where h: "highlightRange pf d ?r ty customId = (d', Returns (Some m))" by blast
  from a b br(1) br(2) ts h show ?thesis by blast
qed


lemma findAndHighlightText_success:
  assumes body: "bodyPath d = Some b" and bn: "nodeAt d b = Some n"
    and slice: "drop off (take (off + length ex) (textContent n)) = ex" and ne: "ex \<noteq> []"
    and eff: "effectiveId pf (Some gid) = Returns g"
    and safe: "selectorSafe g" and nofault: "\<forall>k. wrapFault pf k = None"
  shows "\<exists>d' r'. findAndHighlightText pf d ex gid ty off = (d', True, Some r') \<and>
           valid_range d r' \<and> range_toString d r' = ex"
proof -
  note nt = conjunct1[OF bodyPath_Elem[OF body]]
  from located_success[OF bn nt slice ne eff safe nofault, of ty]
  obtain q1 k1 q2 k2 r' d' m where
    a: "findTextNodeAtOffset n off = Some (q1, k1)"
    and b: "findTextNodeAtOffset n (off + length ex) = Some (q2, k2)"
    and c: "createRange d (b @ q1) k1 (b @ q2) k2 = Returns r'"
    and v: "valid_range d r'" and t: "range_toString d r' = ex"
    and h: "highlightRange pf d r' ty (Some gid) = (d', Returns (Some m))" by blast
  have "findAndHighlightText pf d ex gid ty off = (d', True, Some r')"
    by (simp add: findAndHighlightText_def body bn a b c h)
  with v t show ?thesis by blast
qed

lemma restoreByTextQuote_success:
  assumes body: "bodyPath d = Some b" and bn: "nodeAt d b = Some n"
    and occ: "indexOf (textContent n) (exact tq) \<noteq> None" and ne: "exact tq \<noteq> []"
    and eff: "effectiveId pf (Some gid) = Returns g"
    and safe: "selectorSafe g" and nofault: "\<forall>k. wrapFault pf k = None"
  shows "\<exists>d' r'. restoreByTextQuote pf d gid tq ty = (d', Returns True, Some r') \<and>
           valid_range d r' \<and> range_toString d r' = exact tq"
proof -
  have bd: "bodyNode d = Some n" by (simp add: bodyNode_def body bn)
  show ?thesis
  proof (cases "indexOf (textContent n) (prefix tq @ exact tq @ suffix tq)")
    case (Some j)
    note slice = pattern_slice[OF Some]
    from findAndHighlightText_success[OF body bn slice ne eff safe nofault, of ty]
    obtain d' r' where f: "findAndHighlightText pf d (exact tq) gid ty (j + length (prefix tq)) =
        (d', True, Some r')" and v: "valid_range d r'" and t: "range_toString d r' = exact tq"
      by blast
    have "restoreByTextQuote pf d gid tq ty = (d', Returns True, Some r')"
      by (simp add: restoreByTextQuote_def bd Let_def Some f)
    with v t show ?thesis by blast
  next
    case None
    from occ obtain i where i: "indexOf (textContent n) (exact tq) = Some i" by blast
    have slice: "drop i (take (i + length (exact tq)) (textContent n)) = exact tq"
      by (rule indexOf_slice[OF i])
    from findAndHighlightText_success[OF body bn slice ne eff safe nofault, of ty]
    obtain d' r' where f: "findAndHighlightText pf d (exact tq) gid ty i = (d', True, Some r')"
      and v: "valid_range d r'" and t: "range_toString d r' = exact tq" by blast
    have "restoreByTextQuote pf d gid tq ty = (d', Returns True, Some r')"
      by (simp add: restoreByTextQuote_def bd Let_def None i f)
    with v t show ?thesis by blast
  qed
qed

lemma firstBodyIndex_tag:
  "firstBodyIndex cs j = Some k \<Longrightarrow>
   \<exists>t a ks. cs ! (k - j) = Elem t a ks \<and> (t = ''body'' \<or> t = ''frameset'')"
proof (induction cs j rule: firstBodyIndex.induct)
  case (1 i)
  then show ?case by simp
next
  case (2 s cs i)
  from 2(2) have r: "firstBodyIndex cs (Suc i) = Some k" by simp
  from firstBodyIndex_bound[OF r] have "k - i = Suc (k - Suc i)" by arith
  with 2(1)[OF r] show ?case by simp
next
  case (3 t a ks cs i)
  show ?case
  proof (cases "t = ''body'' \<or> t = ''frameset''")
    case True
    with 3(2) show ?thesis by auto
  next
    case False
    with 3(2) have r: "firstBodyIndex cs (Suc i) = Some k" by simp
    from firstBodyIndex_bound[OF r] have "k - i = Suc (k - Suc i)" by arith
    with 3(1)[OF False r] show ?thesis by simp
  qed
qed

lemma xpath_unresolved:
  assumes body: "bodyPath d = Some b" and pre: "isPrefix b p" and m: "nodeAt d p = Some m"
  shows "evaluate d (generateXPath d p) = Returns None"
proof -
  from body obtain a cs i where d: "d = Elem ''html'' a cs" and b: "b = [i]"
    and f: "firstBodyIndex cs 0 = Some i"
    by (cases d) (auto split: if_splits)
  from firstBodyIndex_bound[OF f] have il: "i < length cs" by simp
  from firstBodyIndex_tag[OF f] obtain t a' ks where
    c: "cs ! i = Elem t a' ks" and tg: "t = ''body'' \<or> t = ''frameset''" by auto
  from pre b obtain q where p: "p = i # q" by (auto simp: isPrefix_iff)
  have steps: "\<And>q'. \<exists>k rest. elementSteps d (i # q') = (t, k) # rest"
    using il c by (simp add: d)
  have "\<exists>k rest. generateXPath d p = (t, k) # rest"
  proof (cases m)
    case (Text s)
    have "q \<noteq> []"
    proof
      assume "q = []"
      with m p il c Text show False by (simp add: d)
    qed
    then have "butlast p = i # butlast q" by (simp add: p)
    with steps[of "butlast q"] m Text show ?thesis by (simp add: generateXPath_def)
  next
    case (Elem t' a'' ks')
    with steps[of q] m show ?thesis by (simp add: generateXPath_def p)
  qed
  then obtain k rest where g: "generateXPath d p = (t, k) # rest" by blast
  from tg have "t \<noteq> ''html''" by auto
  then show ?thesis unfolding g by (simp add: evaluate_def d)
qed

lemma exact_createTextQuote: "exact (createTextQuote d r) = range_toString d r"
  by (simp add: createTextQuote_def Let_def)

section \<open>Round-trip anchoring\<close>

lemma location_plain:
  "createLocationInfo doc_plain range_plain = \<lparr>xpath = xp_demo, textQuote = tq_demo\<rparr>"
  by code_simp

lemma location_image:
  "createLocationInfo doc_figure range_image =
     \<lparr>xpath = [(''body'', 2)], textQuote = \<lparr>exact = [], prefix = [], suffix = []\<rparr>\<rparr>"
  by code_simp

lemma location_title:
  "createLocationInfo doc_figure range_title =
     \<lparr>xpath = [(''head'', 1), (''title'', 1)],
      textQuote = \<lparr>exact = ''T'', prefix = [], suffix = []\<rparr>\<rparr>"
  by code_simp

lemma restore_image:
  "restoreHighlight pf_demo doc_figure ''a1'' [(''body'', 2)]
     \<lparr>exact = [], prefix = [], suffix = []\<rparr> Agree = (doc_figure, Returns False, None)"
  by code_simp

lemma restore_title:
  "restoreHighlight pf_demo doc_figure ''a1'' [(''head'', 1), (''title'', 1)]
     \<lparr>exact = ''T'', prefix = [], suffix = []\<rparr> Agree = (doc_figure, Returns False, None)"
  by code_simp

lemma restore_insecure:
  "restoreHighlight pf_insecure doc_plain [] xp_demo tq_demo Agree =
     (doc_plain, Returns False, Some range_plain)"
  by code_simp

text \<open>
  C2 (as stated): for every range that is not collapsed, \<open>restoreHighlight\<close> applied to the
  descriptor of the range succeeds on the unmodified document and rebuilds a range with the
  text of the descriptor. In the document \<open>doc_figure\<close> the body holds one image and no text.
  The range around the image is not collapsed and its text is empty: the text-quote search
  finds the empty text at offset 0 of the body, no text node holds that offset, and the call
  returns false. The range in the title selects \<open>T\<close>: the generated path starts below the
  document element and never resolves, the text-quote search looks in the body only, and the
  call returns false. In the document \<open>doc_plain\<close> the call throws a \<open>SyntaxError\<close> for
  the identifier \<open>a"b\<close>, and returns false for the empty identifier where
  \<open>crypto.randomUUID\<close> is missing.
\<close>

theorem restoreHighlight_roundtrip_counterexample:
  "valid_range doc_figure range_image \<and> \<not> collapsed range_image \<and>
   restoreHighlight pf_demo doc_figure ''a1'' (xpath (createLocationInfo doc_figure range_image))
     (textQuote (createLocationInfo doc_figure range_image)) Agree =
     (doc_figure, Returns False, None) \<and>
   valid_range doc_figure range_title \<and> \<not> collapsed range_title \<and>
   range_toString doc_figure range_title = ''T'' \<and>
   restoreHighlight pf_demo doc_figure ''a1'' (xpath (createLocationInfo doc_figure range_title))
     (textQuote (createLocationInfo doc_figure range_title)) Agree =
     (doc_figure, Returns False, None) \<and>
   valid_range doc_plain range_plain \<and> \<not> collapsed range_plain \<and>
   restoreHighlight pf_demo doc_plain quoted_id (xpath (createLocationInfo doc_plain range_plain))
     (textQuote (createLocationInfo doc_plain range_plain)) Agree =
     (doc_plain, Throws SyntaxError, None) \<and>
   restoreHighlight pf_insecure doc_plain [] (xpath (createLocationInfo doc_plain range_plain))
     (textQuote (createLocationInfo doc_plain range_plain)) Agree =
     (doc_plain, Returns False, Some range_plain)"
proof -
  have 1: "valid_range doc_figure range_image" "\<not> collapsed range_image"
    "valid_range doc_figure range_title" "\<not> collapsed range_title"
    "valid_range doc_plain range_plain" "\<not> collapsed range_plain"
    by (simp_all add: doc_figure_def range_image_def range_title_def doc_plain_def
        range_plain_def valid_range_def valid_point_def collapsed_def)
  have 2: "range_toString doc_figure range_title = ''T''"
    by (simp add: doc_figure_def range_title_def range_toString_def textData_def substring_def)
  have u: "\<not> selectorSafe quoted_id"
    by (simp add: selectorSafe_def unsafeChar_def quoted_id_def)
  have 3: "restoreHighlight pf_demo doc_plain quoted_id xp_demo tq_demo Agree =
     (doc_plain, Throws SyntaxError, None)"
    by (simp add: restoreHighlight_def querySelector_markGogoId_def u)
  from 1 2 3 restore_image restore_title restore_insecure show ?thesis
    by (simp add: location_plain location_image location_title)
qed

text \<open>
  C2 (amended): let a range lie inside the body (its start and end container are the body or
  below it) and select some text (its string is not empty), let the identifier have no
  double quote, backslash, line break or NUL character and be carried by no mark element of
  the document, let the identifier \<open>highlightRange\<close> works with (the identifier itself, or
  for the empty one what \<open>crypto.randomUUID()\<close> returns) have none of these characters
  either, and let no fragment wrap throw. Then \<open>restoreHighlight\<close>, applied to the
  descriptor \<open>createLocationInfo\<close> builds from the range, on the unmodified document,
  returns true, and the range it rebuilds is a valid range whose string is the exact text
  of the descriptor, the text selected at first.
\<close>

theorem restoreHighlight_roundtrip:
  assumes vr: "valid_range d r" and body: "bodyPath d = Some b"
    and sb: "isPrefix b (startContainer r)" and eb: "isPrefix b (endContainer r)"
    and sel: "range_toString d r \<noteq> []"
    and safe: "selectorSafe gid" and fresh: "\<not> hasMark d gid"
    and eff: "effectiveId pf (Some gid) = Returns g" and safe': "selectorSafe g"
    and nofault: "\<forall>k. wrapFault pf k = None"
  shows "\<exists>d' r'. restoreHighlight pf d gid (xpath (createLocationInfo d r))
             (textQuote (createLocationInfo d r)) ty = (d', Returns True, Some r') \<and>
           valid_range d r' \<and>
           range_toString d r' = exact (textQuote (createLocationInfo d r)) \<and>
           exact (textQuote (createLocationInfo d r)) = range_toString d r"
proof -
  let ?tq = "createTextQuote d r"
  from bodyPath_nodeAt[OF body] obtain n where bn: "nodeAt d b = Some n" by blast
  from valid_point_node[OF valid_range_points(1)[OF vr]] obtain ns where
    ns: "nodeAt d (startContainer r) = Some ns" by blast
  have ev: "evaluate d (generateXPath d (startContainer r)) = Returns None"
    by (rule xpath_unresolved[OF body sb ns])
  have q: "querySelector_markGogoId d gid = Returns None"
    using safe fresh by (simp add: querySelector_markGogoId_def hasMark_def)
  have ex: "exact ?tq = range_toString d r" by (rule exact_createTextQuote)
  from body_range_text[OF vr bn sb eb] obtain a c where
    sl: "range_toString d r = drop a (take c (textContent n))" by blast
  note so = slice_occurs[OF sl sel]
  have "indexOf (textContent n) (range_toString d r) \<noteq> None"
    by (rule indexOf_occurs[OF conjunct1[OF so] conjunct2[OF so]])
  then have occ: "indexOf (textContent n) (exact ?tq) \<noteq> None" by (simp add: ex)
  have ne: "exact ?tq \<noteq> []" using sel by (simp add: ex)
  from restoreByTextQuote_success[OF body bn occ ne eff safe' nofault, of ty]
  obtain d' r' where rb: "restoreByTextQuote pf d gid ?tq ty = (d', Returns True, Some r')"
    and v: "valid_range d r'" and t: "range_toString d r' = exact ?tq" by blast
  have "restoreHighlight pf d gid (xpath (createLocationInfo d r))
             (textQuote (createLocationInfo d r)) ty = (d', Returns True, Some r')"
    by (simp add: restoreHighlight_def createLocationInfo_def q ev rb)
  with v t ex show ?thesis by (simp add: createLocationInfo_def)
qed

theorem restoreHighlight_roundtrip_witness:
  "valid_range doc_plain range_plain \<and> bodyPath doc_plain = Some [1] \<and>
   isPrefix [1] (startContainer range_plain) \<and> isPrefix [1] (endContainer range_plain) \<and>
   range_toString doc_plain range_plain = ''bcd'' \<and>
   selectorSafe ''a1'' \<and> \<not> hasMark doc_plain ''a1'' \<and>
   effectiveId pf_demo (Some ''a1'') = Returns ''a1'' \<and>
   wrapFault pf_demo = (\<lambda>k. None) \<and>
   createLocationInfo doc_plain range_plain = \<lparr>xpath = xp_demo, textQuote = tq_demo\<rparr> \<and>
   restoreHighlight pf_demo doc_plain ''a1'' xp_demo tq_demo Agree =
     (doc_marked, Returns True, Some range_plain) \<and>
   (\<exists>d' r'. restoreHighlight pf_demo doc_plain ''a1''
        (xpath (createLocationInfo doc_plain range_plain))
        (textQuote (createLocationInfo doc_plain range_plain)) Agree =
        (d', Returns True, Some r') \<and>
      range_toString doc_plain r' = ''bcd'')"
proof -
  have v: "valid_range doc_plain range_plain"
    by (simp add: doc_plain_def range_plain_def valid_range_def valid_point_def)
  have b: "bodyPath doc_plain = Some [1]" by (simp add: doc_plain_def)
  have p1: "isPrefix [1] (startContainer range_plain)" by (simp add: range_plain_def)
  have p2: "isPrefix [1] (endContainer range_plain)" by (simp add: range_plain_def)
  have t: "range_toString doc_plain range_plain = ''bcd''" by code_simp
  have ne: "range_toString doc_plain range_plain \<noteq> []" by (simp add: t)
  have s: "selectorSafe ''a1''" by (simp add: selectorSafe_def unsafeChar_def)
  have f: "\<not> hasMark doc_plain ''a1''"
    by (simp add: hasMark_def doc_plain_def isMarkWithGogoId_def)
  have e: "effectiveId pf_demo (Some ''a1'') = Returns ''a1''" by (simp add: effectiveId_def)
  have w: "wrapFault pf_demo = (\<lambda>k. None)" by (simp add: pf_demo_def)
  have nf: "\<forall>k. wrapFault pf_demo k = None" by (simp add: w)
  from restoreHighlight_roundtrip[OF v b p1 p2 ne s f e s nf, of Agree]
  obtain d' r' where "restoreHighlight pf_demo doc_plain ''a1''
        (xpath (createLocationInfo doc_plain range_plain))
        (textQuote (createLocationInfo doc_plain range_plain)) Agree =
        (d', Returns True, Some r')"
    and "range_toString doc_plain r' = exact (textQuote (createLocationInfo doc_plain range_plain))"
    and "exact (textQuote (createLocationInfo doc_plain range_plain)) =
        range_toString doc_plain range_plain" by blast
  then have x: "\<exists>d' r'. restoreHighlight pf_demo doc_plain ''a1''
        (xpath (createLocationInfo doc_plain range_plain))
        (textQuote (createLocationInfo doc_plain range_plain)) Agree =
        (d', Returns True, Some r') \<and>
      range_toString doc_plain r' = ''bcd''" using t by auto
  from v b p1 p2 t s f e w location_plain restore_plain_a1 x show ?thesis by blast
qed

end
